theory Spec2Isabelle
  imports Complex_Main "HOL-Library.Multiset"
begin

section \<open>Alert model (models.py)\<close>

text \<open>
  Time stamps are the values of \<^verbatim>\<open>time.time()\<close>; they are modelled as real numbers
  and every clock read of the source is an explicit argument of the operation that
  performs it.
\<close>

datatype AlertSeverity = CRITICAL | HIGH | WARNING | INFO

datatype Priority = P1 | P2 | P3 | P4

record PagerDutyAlert =
  incident_id :: string
  service_name :: string
  severity :: AlertSeverity
  priority :: "Priority option"
  description :: string

section \<open>Runtime state (state.py) and telemetry instruments (telemetry.py)\<close>

record ErrorRecord =
  err_timestamp :: real
  err_type :: string
  err_message :: string
  err_incident_id :: "string option"
  err_trace_id :: "string option"

text \<open>\<^verbatim>\<open>deque(maxlen=n).append(x)\<close>: the oldest entries are dropped on overflow.\<close>

definition deque_append :: "nat \<Rightarrow> 'a list \<Rightarrow> 'a \<Rightarrow> 'a list" where
  "deque_append maxlen xs x = (let ys = xs @ [x] in drop (length ys - maxlen) ys)"

record RuntimeState =
  webhooks_received :: int
  webhooks_processed :: int
  webhooks_ignored :: int
  webhooks_failed :: int
  agent_runs_completed :: int
  agent_runs_failed :: int
  total_input_tokens :: int
  total_output_tokens :: int
  run_token_usage :: "int list"
  hourly_token_log :: "(real \<times> int) list"
  alerts_deduplicated :: int
  alerts_queued :: int
  alerts_expired :: int
  active_incidents :: "string \<rightharpoonup> real"
  recent_errors :: "ErrorRecord list"
  run_durations :: "real list"
  draining :: bool

definition RuntimeState_init :: RuntimeState where
  "RuntimeState_init =
     \<lparr>webhooks_received = 0, webhooks_processed = 0, webhooks_ignored = 0,
      webhooks_failed = 0, agent_runs_completed = 0, agent_runs_failed = 0,
      total_input_tokens = 0, total_output_tokens = 0, run_token_usage = [],
      hourly_token_log = [], alerts_deduplicated = 0, alerts_queued = 0,
      alerts_expired = 0, active_incidents = Map.empty, recent_errors = [],
      run_durations = [], draining = False\<rparr>"

text \<open>
  The OpenTelemetry instruments are module-level counters; each one is modelled by the
  sum of the amounts passed to its \<^verbatim>\<open>add\<close>.
\<close>

record Telemetry =
  alerts_deduplicated_counter :: int
  alerts_expired_counter :: int
  alerts_queued_counter :: int
  incidents_active_updown :: int
  intake_queue_depth_updown :: int
  webhooks_received_counter :: int
  webhooks_processed_counter :: int
  webhooks_ignored_counter :: int
  webhooks_failed_counter :: int
  agent_runs_completed_counter :: int
  agent_runs_failed_counter :: int

definition Telemetry_init :: Telemetry where
  "Telemetry_init =
     \<lparr>alerts_deduplicated_counter = 0, alerts_expired_counter = 0,
      alerts_queued_counter = 0, incidents_active_updown = 0,
      intake_queue_depth_updown = 0, webhooks_received_counter = 0,
      webhooks_processed_counter = 0, webhooks_ignored_counter = 0,
      webhooks_failed_counter = 0, agent_runs_completed_counter = 0,
      agent_runs_failed_counter = 0\<rparr>"

section \<open>Queued alerts and their order (intake.py)\<close>

definition priority_rank_fn :: "Priority option \<Rightarrow> int" where
  "priority_rank_fn p =
     (case p of None \<Rightarrow> 99
      | Some P1 \<Rightarrow> 1 | Some P2 \<Rightarrow> 2 | Some P3 \<Rightarrow> 3 | Some P4 \<Rightarrow> 4)"

record QueuedAlert =
  alert :: PagerDutyAlert
  trace_id :: string
  enqueued_at :: real
  priority_rank :: int

text \<open>\<^verbatim>\<open>QueuedAlert.__lt__\<close>\<close>

definition QueuedAlert_lt :: "QueuedAlert \<Rightarrow> QueuedAlert \<Rightarrow> bool" where
  "QueuedAlert_lt self other =
     (if priority_rank self \<noteq> priority_rank other
      then priority_rank self < priority_rank other
      else enqueued_at self < enqueued_at other)"

section \<open>The binary heap of the standard library (heapq), on a Python list\<close>

text \<open>
  The queue is a Python list handled through \<^verbatim>\<open>heapq.heappush\<close>,
  \<^verbatim>\<open>heapq.heappop\<close> and \<^verbatim>\<open>heapq.heapify\<close>. These are transcribed from the
  library's reference implementation (\<^verbatim>\<open>_siftdown\<close>, \<^verbatim>\<open>_siftup\<close>), which compares items
  with \<^verbatim>\<open>__lt__\<close> only. All index reads below are in range at every call the
  library makes.
\<close>

function siftdown_loop ::
  "QueuedAlert list \<Rightarrow> QueuedAlert \<Rightarrow> nat \<Rightarrow> nat \<Rightarrow> QueuedAlert list" where
  "siftdown_loop heap newitem startpos pos =
     (if pos > startpos then
        (if QueuedAlert_lt newitem (heap ! ((pos - 1) div 2))
         then siftdown_loop (heap[pos := heap ! ((pos - 1) div 2)]) newitem startpos
                ((pos - 1) div 2)
         else heap[pos := newitem])
      else heap[pos := newitem])"
  by pat_completeness auto
termination
  by (relation "measure (\<lambda>(heap, newitem, startpos, pos). pos)") auto

declare siftdown_loop.simps [simp del]

definition siftdown :: "QueuedAlert list \<Rightarrow> nat \<Rightarrow> nat \<Rightarrow> QueuedAlert list" where
  "siftdown heap startpos pos = siftdown_loop heap (heap ! pos) startpos pos"

text \<open>The index of the smaller child of \<open>pos\<close>, whose left child is \<open>childpos\<close>.\<close>

definition smaller_child :: "QueuedAlert list \<Rightarrow> nat \<Rightarrow> nat" where
  "smaller_child heap childpos =
     (let rightpos = childpos + 1 in
      if rightpos < length heap \<and> \<not> QueuedAlert_lt (heap ! childpos) (heap ! rightpos)
      then rightpos else childpos)"

function siftup_loop :: "QueuedAlert list \<Rightarrow> nat \<Rightarrow> QueuedAlert list \<times> nat" where
  "siftup_loop heap pos =
     (if 2 * pos + 1 < length heap then
        siftup_loop (heap[pos := heap ! smaller_child heap (2 * pos + 1)])
          (smaller_child heap (2 * pos + 1))
      else (heap, pos))"
  by pat_completeness auto
termination
  by (relation "measure (\<lambda>(heap, pos). length heap - pos)")
     (auto simp: smaller_child_def Let_def)

declare siftup_loop.simps [simp del]

definition siftup :: "QueuedAlert list \<Rightarrow> nat \<Rightarrow> QueuedAlert list" where
  "siftup heap pos =
     (let newitem = heap ! pos;
          (heap', pos') = siftup_loop heap pos
      in siftdown (heap'[pos' := newitem]) pos pos')"

definition heappush :: "QueuedAlert list \<Rightarrow> QueuedAlert \<Rightarrow> QueuedAlert list" where
  "heappush heap item = siftdown (heap @ [item]) 0 (length heap)"

text \<open>\<^verbatim>\<open>heappop\<close> raises IndexError on an empty list: \<open>None\<close>.\<close>

definition heappop :: "QueuedAlert list \<Rightarrow> (QueuedAlert \<times> QueuedAlert list) option" where
  "heappop heap =
     (if heap = [] then None
      else (let lastelt = last heap; heap1 = butlast heap in
            if heap1 \<noteq> [] then Some (heap1 ! 0, siftup (heap1[0 := lastelt]) 0)
            else Some (lastelt, heap1)))"

definition heapify :: "QueuedAlert list \<Rightarrow> QueuedAlert list" where
  "heapify x = fold (\<lambda>i h. siftup h i) (rev [0..<length x div 2]) x"

subsection \<open>The heap operations keep the length of the list\<close>

lemma length_siftdown_loop [simp]:
  "length (siftdown_loop heap newitem startpos pos) = length heap"
  by (induction heap newitem startpos pos rule: siftdown_loop.induct)
     (subst siftdown_loop.simps, simp)

lemma length_siftdown [simp]: "length (siftdown heap startpos pos) = length heap"
  by (simp add: siftdown_def)

lemma length_siftup_loop [simp]: "length (fst (siftup_loop heap pos)) = length heap"
  by (induction heap pos rule: siftup_loop.induct)
     (subst siftup_loop.simps, simp)

lemma length_siftup [simp]: "length (siftup heap pos) = length heap"
proof -
  obtain h p where hp: "siftup_loop heap pos = (h, p)"
    by (cases "siftup_loop heap pos")
  from length_siftup_loop [of heap pos] hp have "length h = length heap"
    by simp
  with hp show ?thesis
    by (simp add: siftup_def)
qed

lemma length_heappush [simp]: "length (heappush heap item) = Suc (length heap)"
  by (simp add: heappush_def)

lemma heappop_None [simp]: "heappop heap = None \<longleftrightarrow> heap = []"
  by (simp add: heappop_def Let_def)

lemma length_heappop:
  "heappop heap = Some (item, heap') \<Longrightarrow> Suc (length heap') = length heap"
  by (cases heap rule: rev_cases) (auto simp: heappop_def Let_def split: if_splits)

section \<open>Correctness of the heap operations\<close>

text \<open>\<open>QueuedAlert_le a b\<close>: \<open>b\<close> is not strictly before \<open>a\<close>. A total preorder.\<close>

definition QueuedAlert_le :: "QueuedAlert \<Rightarrow> QueuedAlert \<Rightarrow> bool" where
  "QueuedAlert_le a b \<longleftrightarrow> \<not> QueuedAlert_lt b a"

lemma QueuedAlert_le_refl [simp]: "QueuedAlert_le a a"
  by (simp add: QueuedAlert_le_def QueuedAlert_lt_def)

lemma QueuedAlert_lt_irrefl [simp]: "\<not> QueuedAlert_lt a a"
  by (simp add: QueuedAlert_lt_def)

lemma QueuedAlert_le_trans:
  "QueuedAlert_le a b \<Longrightarrow> QueuedAlert_le b c \<Longrightarrow> QueuedAlert_le a c"
  by (auto simp: QueuedAlert_le_def QueuedAlert_lt_def split: if_splits)

lemma QueuedAlert_le_total: "QueuedAlert_le a b \<or> QueuedAlert_le b a"
  by (auto simp: QueuedAlert_le_def QueuedAlert_lt_def split: if_splits)

lemma QueuedAlert_lt_le: "QueuedAlert_lt a b \<Longrightarrow> QueuedAlert_le a b"
  by (auto simp: QueuedAlert_le_def QueuedAlert_lt_def split: if_splits)

text \<open>
  The heap property of the list from index \<open>start\<close> on: every item whose parent index
  is at least \<open>start\<close> is not strictly before its parent.
\<close>

definition heap_from :: "nat \<Rightarrow> QueuedAlert list \<Rightarrow> bool" where
  "heap_from start h \<longleftrightarrow>
     (\<forall>c. 0 < c \<and> c < length h \<and> start \<le> (c - 1) div 2
          \<longrightarrow> QueuedAlert_le (h ! ((c - 1) div 2)) (h ! c))"

definition is_heap :: "QueuedAlert list \<Rightarrow> bool" where
  "is_heap h = heap_from 0 h"

text \<open>\<open>descends s p\<close>: index \<open>p\<close> lies in the subtree rooted at index \<open>s\<close>.\<close>

inductive descends :: "nat \<Rightarrow> nat \<Rightarrow> bool" for s where
  d_root: "descends s s"
| d_child: "descends s p \<Longrightarrow> 0 < c \<Longrightarrow> (c - 1) div 2 = p \<Longrightarrow> descends s c"

lemma descends_ge: "descends s p \<Longrightarrow> s \<le> p"
  by (induction rule: descends.induct) auto

lemma descends_parent:
  "descends s p \<Longrightarrow> p \<noteq> s \<Longrightarrow> 0 < p \<and> descends s ((p - 1) div 2)"
  by (induction rule: descends.induct) auto

lemma descends_zero: "descends 0 p"
proof (induction p rule: less_induct)
  case (less p)
  show ?case
  proof (cases "p = 0")
    case True
    then show ?thesis by (simp add: d_root)
  next
    case False
    then have "(p - 1) div 2 < p" by simp
    from less [OF this] False show ?thesis
      by (auto intro: d_child)
  qed
qed

lemma parent_less: "0 < p \<Longrightarrow> (p - 1) div 2 < (p::nat)"
  by arith

lemma mset_move:
  assumes "i < length h" "j < length h" "i \<noteq> j"
  shows "mset (h[i := h ! j, j := n]) = mset (h[i := n])"
proof -
  let ?xs = "h[i := n]"
  have "?xs[j := ?xs ! i, i := ?xs ! j] = h[i := h ! j, j := n]"
    using assms by (intro nth_equalityI) (auto simp: nth_list_update)
  moreover have "mset (?xs[j := ?xs ! i, i := ?xs ! j]) = mset ?xs"
    using assms by (intro mset_swap) simp_all
  ultimately show ?thesis by simp
qed

subsection \<open>Sifting an item towards the root\<close>

lemma siftdown_loop_ignores:
  "siftdown_loop (h[pos := y]) newitem startpos pos = siftdown_loop h newitem startpos pos"
proof (cases "pos > startpos")
  case True
  then have "(pos - 1) div 2 \<noteq> pos" by simp
  then show ?thesis
    by (subst (1 2) siftdown_loop.simps) simp
next
  case False
  then show ?thesis
    by (subst (1 2) siftdown_loop.simps) simp
qed

lemma mset_siftdown_loop:
  "pos < length h \<Longrightarrow>
   mset (siftdown_loop h newitem startpos pos) = mset (h[pos := newitem])"
proof (induction h newitem startpos pos rule: siftdown_loop.induct)
  case (1 heap newitem startpos pos)
  show ?case
  proof (cases "pos > startpos \<and> QueuedAlert_lt newitem (heap ! ((pos - 1) div 2))")
    case True
    let ?par = "(pos - 1) div 2"
    from True have par: "?par < pos" by (intro parent_less) simp
    with "1.prems" have len: "?par < length (heap[pos := heap ! ?par])" by simp
    from True have "siftdown_loop heap newitem startpos pos =
        siftdown_loop (heap[pos := heap ! ?par]) newitem startpos ?par"
      by (subst siftdown_loop.simps) simp
    also have "mset \<dots> = mset (heap[pos := heap ! ?par, ?par := newitem])"
      using "1.IH" True len by simp
    also have "\<dots> = mset (heap[pos := newitem])"
      using par "1.prems" by (intro mset_move) simp_all
    finally show ?thesis .
  next
    case False
    then show ?thesis
      by (subst siftdown_loop.simps) auto
  qed
qed

text \<open>
  The loop invariant of \<^verbatim>\<open>_siftdown\<close>: the list is a heap from \<open>startpos\<close> on, and the
  new item is not after any child of the position it is about to take.
\<close>

lemma heap_from_siftdown_loop:
  assumes "heap_from startpos h" and "descends startpos pos" and "pos < length h"
    and "\<forall>c. 0 < c \<and> c < length h \<and> (c - 1) div 2 = pos \<longrightarrow> QueuedAlert_le newitem (h ! c)"
  shows "heap_from startpos (siftdown_loop h newitem startpos pos)"
  using assms
proof (induction h newitem startpos pos rule: siftdown_loop.induct)
  case (1 heap newitem startpos pos)
  let ?par = "(pos - 1) div 2"
  show ?case
  proof (cases "pos > startpos \<and> QueuedAlert_lt newitem (heap ! ?par)")
    case True
    then have ne: "pos \<noteq> startpos" by simp
    from descends_parent [OF "1.prems"(2) ne]
    have pos0: "0 < pos" and dpar: "descends startpos ?par" by simp_all
    have par_ge: "startpos \<le> ?par" using dpar by (rule descends_ge)
    have par_lt: "?par < pos" using pos0 by (rule parent_less)
    let ?h = "heap[pos := heap ! ?par]"
    have hp: "QueuedAlert_le (heap ! ?par) (heap ! pos)"
      using "1.prems"(1,3) pos0 par_ge by (simp add: heap_from_def)
    have h1: "heap_from startpos ?h"
      unfolding heap_from_def
    proof (intro allI impI)
      fix c assume c: "0 < c \<and> c < length ?h \<and> startpos \<le> (c - 1) div 2"
      then have old: "QueuedAlert_le (heap ! ((c - 1) div 2)) (heap ! c)"
        using "1.prems"(1) by (simp add: heap_from_def)
      show "QueuedAlert_le (?h ! ((c - 1) div 2)) (?h ! c)"
      proof (cases "c = pos")
        case True
        with par_lt "1.prems"(3) show ?thesis by simp
      next
        case False
        show ?thesis
        proof (cases "(c - 1) div 2 = pos")
          case True
          with c False "1.prems"(3) old hp show ?thesis
            by (auto intro: QueuedAlert_le_trans)
        next
          case False
          with \<open>c \<noteq> pos\<close> old show ?thesis by simp
        qed
      qed
    qed
    have h2: "\<forall>c. 0 < c \<and> c < length ?h \<and> (c - 1) div 2 = ?par
                \<longrightarrow> QueuedAlert_le newitem (?h ! c)"
    proof (intro allI impI)
      fix c assume c: "0 < c \<and> c < length ?h \<and> (c - 1) div 2 = ?par"
      have np: "QueuedAlert_le newitem (heap ! ?par)"
        using True by (simp add: QueuedAlert_lt_le)
      show "QueuedAlert_le newitem (?h ! c)"
      proof (cases "c = pos")
        case True
        with "1.prems"(3) np show ?thesis by simp
      next
        case False
        from c par_ge have "QueuedAlert_le (heap ! ?par) (heap ! c)"
          using "1.prems"(1) by (auto simp: heap_from_def)
        with np False show ?thesis
          by (auto intro: QueuedAlert_le_trans)
      qed
    qed
    have "heap_from startpos (siftdown_loop ?h newitem startpos ?par)"
      using "1.IH" True h1 dpar par_lt "1.prems"(3) h2 by simp
    with True show ?thesis
      by (subst siftdown_loop.simps) simp
  next
    case False
    then have res: "siftdown_loop heap newitem startpos pos = heap[pos := newitem]"
      by (subst siftdown_loop.simps) auto
    have "heap_from startpos (heap[pos := newitem])"
      unfolding heap_from_def
    proof (intro allI impI)
      fix c assume c: "0 < c \<and> c < length (heap[pos := newitem]) \<and> startpos \<le> (c - 1) div 2"
      then have old: "QueuedAlert_le (heap ! ((c - 1) div 2)) (heap ! c)"
        using "1.prems"(1) by (simp add: heap_from_def)
      show "QueuedAlert_le (heap[pos := newitem] ! ((c - 1) div 2)) (heap[pos := newitem] ! c)"
      proof (cases "c = pos")
        case True
        with c have sp: "startpos < pos" by auto
        with False have "QueuedAlert_le (heap ! ?par) newitem"
          by (simp add: QueuedAlert_le_def)
        moreover from True c have "?par < pos" by (intro parent_less) simp
        ultimately show ?thesis using True "1.prems"(3) by simp
      next
        case False
        show ?thesis
        proof (cases "(c - 1) div 2 = pos")
          case True
          with c False "1.prems"(3,4) show ?thesis by simp
        next
          case False
          with \<open>c \<noteq> pos\<close> old show ?thesis by simp
        qed
      qed
    qed
    with res show ?thesis by simp
  qed
qed

subsection \<open>Moving the hole to a leaf\<close>

lemma child_cases: "0 < c \<Longrightarrow> (c - 1) div 2 = p \<Longrightarrow> c = 2 * p + 1 \<or> c = 2 * p + 2"
  for c p :: nat
  by arith

lemma smaller_child_props:
  assumes "2 * pos + 1 < length h"
  shows "smaller_child h (2 * pos + 1) < length h"
    and "0 < smaller_child h (2 * pos + 1)"
    and "(smaller_child h (2 * pos + 1) - 1) div 2 = pos"
    and "pos < smaller_child h (2 * pos + 1)"
    and "0 < c \<Longrightarrow> c < length h \<Longrightarrow> (c - 1) div 2 = pos
           \<Longrightarrow> QueuedAlert_le (h ! smaller_child h (2 * pos + 1)) (h ! c)"
proof -
  show "smaller_child h (2 * pos + 1) < length h" "0 < smaller_child h (2 * pos + 1)"
    "(smaller_child h (2 * pos + 1) - 1) div 2 = pos" "pos < smaller_child h (2 * pos + 1)"
    using assms by (auto simp: smaller_child_def Let_def)
  assume c: "0 < c" "c < length h" "(c - 1) div 2 = pos"
  from child_cases [OF c(1,3)] have "c = 2 * pos + 1 \<or> c = 2 * pos + 2" .
  then show "QueuedAlert_le (h ! smaller_child h (2 * pos + 1)) (h ! c)"
  proof
    assume l: "c = 2 * pos + 1"
    then show ?thesis
      by (auto simp: smaller_child_def Let_def QueuedAlert_le_def)
  next
    assume r: "c = 2 * pos + 2"
    with c(2) show ?thesis
      by (auto simp: smaller_child_def Let_def intro: QueuedAlert_lt_le)
  qed
qed

lemma heap_from_move_child_up:
  assumes "descends startpos pos" and "2 * pos + 1 < length h"
    and "(pos = startpos \<and> heap_from (Suc startpos) h) \<or> (startpos < pos \<and> heap_from startpos h)"
  shows "heap_from startpos (h[pos := h ! smaller_child h (2 * pos + 1)])"
  unfolding heap_from_def
proof (intro allI impI)
  let ?c = "smaller_child h (2 * pos + 1)"
  let ?h = "h[pos := h ! ?c]"
  note sc = smaller_child_props [OF assms(2)]
  from assms(2) have pos_len: "pos < length h" by simp
  fix c assume c: "0 < c \<and> c < length ?h \<and> startpos \<le> (c - 1) div 2"
  then have lt: "(c - 1) div 2 < c" by (intro parent_less) simp
  show "QueuedAlert_le (?h ! ((c - 1) div 2)) (?h ! c)"
  proof (cases "(c - 1) div 2 = pos")
    case True
    with lt have "c \<noteq> pos" by simp
    with True c pos_len sc(5) [of c] show ?thesis by simp
  next
    case False
    show ?thesis
    proof (cases "c = pos")
      case True
      with c lt have "startpos < pos" by simp
      with assms(3) have hf: "heap_from startpos h" by auto
      from hf c True have 1: "QueuedAlert_le (h ! ((pos - 1) div 2)) (h ! pos)"
        by (simp add: heap_from_def)
      from descends_ge [OF assms(1)] sc(1,2,3) hf
      have 2: "QueuedAlert_le (h ! pos) (h ! ?c)"
        by (auto simp: heap_from_def)
      from True lt have "(pos - 1) div 2 \<noteq> pos" by simp
      with True pos_len QueuedAlert_le_trans [OF 1 2] show ?thesis by simp
    next
      case cp: False
      from assms(3) have "QueuedAlert_le (h ! ((c - 1) div 2)) (h ! c)"
      proof
        assume a: "pos = startpos \<and> heap_from (Suc startpos) h"
        with False c have "Suc startpos \<le> (c - 1) div 2" by simp
        with a c show ?thesis by (simp add: heap_from_def)
      next
        assume "startpos < pos \<and> heap_from startpos h"
        with c show ?thesis by (simp add: heap_from_def)
      qed
      with False cp show ?thesis by simp
    qed
  qed
qed

lemma siftup_loop_correct:
  assumes "descends startpos pos" and "pos < length h"
    and "(pos = startpos \<and> heap_from (Suc startpos) h) \<or> (startpos < pos \<and> heap_from startpos h)"
  shows "heap_from startpos (fst (siftup_loop h pos))
         \<and> descends startpos (snd (siftup_loop h pos))
         \<and> snd (siftup_loop h pos) < length h
         \<and> length h \<le> 2 * snd (siftup_loop h pos) + 1
         \<and> mset ((fst (siftup_loop h pos))[snd (siftup_loop h pos) := n]) = mset (h[pos := n])"
  using assms
proof (induction h pos rule: siftup_loop.induct)
  case (1 heap pos)
  show ?case
  proof (cases "2 * pos + 1 < length heap")
    case True
    let ?c = "smaller_child heap (2 * pos + 1)"
    let ?h = "heap[pos := heap ! ?c]"
    note sc = smaller_child_props [OF True]
    have d: "descends startpos ?c"
      using "1.prems"(1) sc(2,3) by (rule d_child)
    have hf: "heap_from startpos ?h"
      using "1.prems"(1) True "1.prems"(3) by (rule heap_from_move_child_up)
    have gt: "startpos < ?c"
      using descends_ge [OF "1.prems"(1)] sc(4) by simp
    have ih: "heap_from startpos (fst (siftup_loop ?h ?c))
         \<and> descends startpos (snd (siftup_loop ?h ?c))
         \<and> snd (siftup_loop ?h ?c) < length ?h
         \<and> length ?h \<le> 2 * snd (siftup_loop ?h ?c) + 1
         \<and> mset ((fst (siftup_loop ?h ?c))[snd (siftup_loop ?h ?c) := n]) = mset (?h[?c := n])"
      using "1.IH" [OF True d] sc(1) hf gt by simp
    have eq: "siftup_loop heap pos = siftup_loop ?h ?c"
      using True by (subst siftup_loop.simps) simp
    have m: "mset (?h[?c := n]) = mset (heap[pos := n])"
      using "1.prems"(2) sc(1,4) by (intro mset_move) simp_all
    from ih m show ?thesis by (simp add: eq)
  next
    case False
    then have eq: "siftup_loop heap pos = (heap, pos)"
      by (subst siftup_loop.simps) simp
    have "heap_from startpos heap"
      using "1.prems"(3)
    proof
      assume a: "pos = startpos \<and> heap_from (Suc startpos) heap"
      show ?thesis
        unfolding heap_from_def
      proof (intro allI impI)
        fix c assume c: "0 < c \<and> c < length heap \<and> startpos \<le> (c - 1) div 2"
        have "(c - 1) div 2 \<noteq> startpos"
        proof
          assume "(c - 1) div 2 = startpos"
          with c child_cases [of c startpos] have "2 * startpos + 1 \<le> c" by auto
          with c False a show False by simp
        qed
        with c have "Suc startpos \<le> (c - 1) div 2" by simp
        with a c show "QueuedAlert_le (heap ! ((c - 1) div 2)) (heap ! c)"
          by (simp add: heap_from_def)
      qed
    qed simp
    with "1.prems" False show ?thesis by (simp add: eq)
  qed
qed

lemma siftup_correct:
  assumes "heap_from (Suc pos) h" and "pos < length h"
  shows "heap_from pos (siftup h pos) \<and> mset (siftup h pos) = mset h"
proof -
  let ?n = "h ! pos"
  obtain h1 p1 where l: "siftup_loop h pos = (h1, p1)"
    by (cases "siftup_loop h pos")
  from siftup_loop_correct [where n = ?n, OF d_root assms(2)] assms(1) l
  have hf: "heap_from pos h1" and d: "descends pos p1" and p1: "p1 < length h"
    and leaf: "length h \<le> 2 * p1 + 1" and m: "mset (h1[p1 := ?n]) = mset h"
    by simp_all
  have len: "length h1 = length h"
    using length_siftup_loop [of h pos] l by simp
  have s: "siftup h pos = siftdown_loop h1 ?n pos p1"
    using p1 len by (simp add: siftup_def l siftdown_def siftdown_loop_ignores)
  have ch: "\<forall>c. 0 < c \<and> c < length h1 \<and> (c - 1) div 2 = p1 \<longrightarrow> QueuedAlert_le ?n (h1 ! c)"
  proof (intro allI impI)
    fix c assume c: "0 < c \<and> c < length h1 \<and> (c - 1) div 2 = p1"
    with child_cases [of c p1] have "2 * p1 + 1 \<le> c" by auto
    with c leaf len show "QueuedAlert_le ?n (h1 ! c)" by simp
  qed
  from heap_from_siftdown_loop [OF hf d _ ch] p1 len
  have "heap_from pos (siftup h pos)" by (simp add: s)
  moreover from mset_siftdown_loop [of p1 h1 ?n pos] p1 len m
  have "mset (siftup h pos) = mset h" by (simp add: s)
  ultimately show ?thesis ..
qed

subsection \<open>Push, pop and heapify keep the heap property and the items\<close>

lemma heap_root_least:
  assumes "is_heap h" and "i < length h"
  shows "QueuedAlert_le (h ! 0) (h ! i)"
  using assms(2)
proof (induction i rule: less_induct)
  case (less i)
  show ?case
  proof (cases "i = 0")
    case True
    then show ?thesis by simp
  next
    case False
    then have p: "(i - 1) div 2 < i" by (intro parent_less) simp
    with less.prems have "(i - 1) div 2 < length h" by simp
    from less.IH [OF p this] have "QueuedAlert_le (h ! 0) (h ! ((i - 1) div 2))" .
    moreover from assms(1) False less.prems
    have "QueuedAlert_le (h ! ((i - 1) div 2)) (h ! i)"
      by (simp add: is_heap_def heap_from_def)
    ultimately show ?thesis by (rule QueuedAlert_le_trans)
  qed
qed

lemma heappush_correct:
  assumes "is_heap h"
  shows "is_heap (heappush h x) \<and> mset (heappush h x) = add_mset x (mset h)"
proof -
  let ?y = "if h = [] then x else h ! ((length h - 1) div 2)"
  have u: "(h @ [?y])[length h := x] = h @ [x]"
    by simp
  have push: "heappush h x = siftdown_loop (h @ [?y]) x 0 (length h)"
    unfolding heappush_def siftdown_def
    using siftdown_loop_ignores [of "h @ [?y]" "length h" x x 0] by (simp only: u) simp
  have hf: "heap_from 0 (h @ [?y])"
    unfolding heap_from_def
  proof (intro allI impI)
    fix c assume c: "0 < c \<and> c < length (h @ [?y]) \<and> 0 \<le> (c - 1) div 2"
    then have p: "(c - 1) div 2 < c" by (intro parent_less) simp
    show "QueuedAlert_le ((h @ [?y]) ! ((c - 1) div 2)) ((h @ [?y]) ! c)"
    proof (cases "c < length h")
      case True
      with p assms c show ?thesis
        by (simp add: nth_append is_heap_def heap_from_def)
    next
      case False
      with c have "c = length h" by simp
      with c p show ?thesis by (auto simp: nth_append)
    qed
  qed
  have ch: "\<forall>c. 0 < c \<and> c < length (h @ [?y]) \<and> (c - 1) div 2 = length h
              \<longrightarrow> QueuedAlert_le x ((h @ [?y]) ! c)"
  proof (intro allI impI)
    fix c assume c: "0 < c \<and> c < length (h @ [?y]) \<and> (c - 1) div 2 = length h"
    then have "(c - 1) div 2 < c" by (intro parent_less) simp
    with c show "QueuedAlert_le x ((h @ [?y]) ! c)" by simp
  qed
  have "heap_from 0 (siftdown_loop (h @ [?y]) x 0 (length h))"
    by (rule heap_from_siftdown_loop [OF hf descends_zero _ ch]) simp
  moreover have "mset (siftdown_loop (h @ [?y]) x 0 (length h)) = add_mset x (mset h)"
    using mset_siftdown_loop [of "length h" "h @ [?y]" x 0] by (simp only: u) simp
  ultimately show ?thesis
    by (simp add: push is_heap_def)
qed

lemma heap_from_prefix: "heap_from k (h @ t) \<Longrightarrow> heap_from k h"
  unfolding heap_from_def
proof (intro allI impI)
  fix c assume a: "\<forall>c. 0 < c \<and> c < length (h @ t) \<and> k \<le> (c - 1) div 2
                     \<longrightarrow> QueuedAlert_le ((h @ t) ! ((c - 1) div 2)) ((h @ t) ! c)"
    and c: "0 < c \<and> c < length h \<and> k \<le> (c - 1) div 2"
  then have p: "(c - 1) div 2 < c" by (intro parent_less) simp
  from a c have "QueuedAlert_le ((h @ t) ! ((c - 1) div 2)) ((h @ t) ! c)" by simp
  with c p show "QueuedAlert_le (h ! ((c - 1) div 2)) (h ! c)"
    by (simp add: nth_append)
qed

lemma heappop_correct:
  assumes "is_heap h" and "heappop h = Some (x, h')"
  shows "is_heap h' \<and> mset h = add_mset x (mset h') \<and> (\<forall>y\<in>set h. QueuedAlert_le x y)"
proof -
  from assms(2) have ne: "h \<noteq> []" by (auto simp: heappop_def)
  let ?h1 = "butlast h"
  have h: "h = ?h1 @ [last h]" using ne by simp
  show ?thesis
  proof (cases "?h1 = []")
    case True
    with assms(2) ne h have "x = last h" "h' = []" "h = [x]"
      by (auto simp: heappop_def Let_def)
    then show ?thesis
      by (simp add: is_heap_def heap_from_def)
  next
    case False
    with assms(2) ne have x: "x = ?h1 ! 0" and h': "h' = siftup (?h1[0 := last h]) 0"
      by (auto simp: heappop_def Let_def)
    note pos = length_greater_0_conv [THEN iffD2, OF False]
    have x0: "x = h ! 0"
      unfolding x using pos by (rule nth_butlast)
    have pos': "0 < length (?h1[0 := last h])"
      using pos by (simp only: length_list_update)
    have "heap_from 0 ?h1"
      using assms(1) h heap_from_prefix [of 0 ?h1 "[last h]"] by (simp add: is_heap_def)
    then have "heap_from (Suc 0) (?h1[0 := last h])"
      unfolding heap_from_def
    proof (intro allI impI)
      fix c assume a: "\<forall>c. 0 < c \<and> c < length ?h1 \<and> 0 \<le> (c - 1) div 2
                     \<longrightarrow> QueuedAlert_le (?h1 ! ((c - 1) div 2)) (?h1 ! c)"
        and c: "0 < c \<and> c < length (?h1[0 := last h]) \<and> Suc 0 \<le> (c - 1) div 2"
      with a show "QueuedAlert_le (?h1[0 := last h] ! ((c - 1) div 2)) (?h1[0 := last h] ! c)"
        by simp
    qed
    from siftup_correct [OF this pos']
    have hp: "heap_from 0 h'" and m: "mset h' = mset (?h1[0 := last h])"
      unfolding h' by blast+
    have xin: "x \<in># mset ?h1"
      unfolding x using nth_mem [OF pos] by (simp only: set_mset_mset)
    have "mset h = add_mset (last h) (mset ?h1)"
      by (subst h) simp
    also have "mset ?h1 = add_mset x (mset ?h1 - {#x#})"
      using xin by simp
    finally have 1: "mset h = add_mset (last h) (add_mset x (mset ?h1 - {#x#}))" .
    have "mset h' = add_mset (last h) (mset ?h1 - {#x#})"
      unfolding m x using pos by (rule mset_update)
    with 1 have "mset h = add_mset x (mset h')"
      by simp
    moreover have "\<forall>y\<in>set h. QueuedAlert_le x y"
      using heap_root_least [OF assms(1)] by (auto simp: in_set_conv_nth x0)
    ultimately show ?thesis using hp by (simp add: is_heap_def)
  qed
qed

lemma heapify_fold:
  assumes "heap_from k h" and "k \<le> length h"
  shows "is_heap (fold (\<lambda>i h. siftup h i) (rev [0..<k]) h)
         \<and> mset (fold (\<lambda>i h. siftup h i) (rev [0..<k]) h) = mset h"
  using assms
proof (induction k arbitrary: h)
  case 0
  then show ?case by (simp add: is_heap_def)
next
  case (Suc k)
  from Suc.prems have k: "k < length h" by simp
  from siftup_correct [OF Suc.prems(1) k]
  have hf: "heap_from k (siftup h k)" and m: "mset (siftup h k) = mset h"
    by simp_all
  from Suc.IH [OF hf] k m show ?case by simp
qed

lemma heapify_correct: "is_heap (heapify x) \<and> mset (heapify x) = mset x"
proof -
  have "heap_from (length x div 2) x"
    unfolding heap_from_def
  proof (intro allI impI)
    fix c assume c: "0 < c \<and> c < length x \<and> length x div 2 \<le> (c - 1) div 2"
    then have False by arith
    then show "QueuedAlert_le (x ! ((c - 1) div 2)) (x ! c)" ..
  qed
  from heapify_fold [OF this] show ?thesis
    by (simp add: heapify_def)
qed

section \<open>The intake pipeline (intake.py)\<close>

text \<open>
  The fields of \<^verbatim>\<open>AlertIntake\<close>. \<open>running\<close> holds the runs that were started by
  \<^verbatim>\<open>_start_run\<close> and whose wrapper has not yet entered \<^verbatim>\<open>_on_complete\<close>, each with
  the alert and trace id it was started for (the source's \<^verbatim>\<open>_tasks\<close> keeps a finished
  task a little longer, until its done-callback has run; it is only awaited at shutdown).
  \<open>state\<close> is the shared runtime state and \<open>telemetry\<close> the module-level instruments.
\<close>

record AlertIntake =
  max_concurrent :: int
  queue_ttl_seconds :: int
  known_incidents :: "string set"
  active_services :: "string \<rightharpoonup> string"
  active_count :: int
  queue :: "QueuedAlert list"
  running :: "(PagerDutyAlert \<times> string) list"
  shutting_down :: bool
  state :: RuntimeState
  telemetry :: Telemetry

definition AlertIntake_init :: "RuntimeState \<Rightarrow> Telemetry \<Rightarrow> int \<Rightarrow> int \<Rightarrow> AlertIntake" where
  "AlertIntake_init st tel maxc ttl =
     \<lparr>max_concurrent = maxc, queue_ttl_seconds = ttl, known_incidents = {},
      active_services = Map.empty, active_count = 0, queue = [], running = [],
      shutting_down = False, state = st, telemetry = tel\<rparr>"

definition start_run :: "PagerDutyAlert \<Rightarrow> string \<Rightarrow> AlertIntake \<Rightarrow> AlertIntake" where
  "start_run a tr s = s\<lparr>running := running s @ [(a, tr)]\<rparr>"

text \<open>
  The bookkeeping shared by the two places that start a run (\<^verbatim>\<open>submit\<close> and
  \<^verbatim>\<open>_dispatch_next\<close>): count, service binding, active-incident entry, gauge, task.
\<close>

definition dispatch_alert :: "PagerDutyAlert \<Rightarrow> string \<Rightarrow> real \<Rightarrow> AlertIntake \<Rightarrow> AlertIntake" where
  "dispatch_alert a tr now s =
     start_run a tr
       (s\<lparr>active_count := active_count s + 1,
          active_services := (active_services s)(service_name a \<mapsto> incident_id a),
          state := (state s)\<lparr>active_incidents :=
                      (active_incidents (state s))(incident_id a \<mapsto> now)\<rparr>,
          telemetry := (telemetry s)\<lparr>incidents_active_updown :=
                      incidents_active_updown (telemetry s) + 1\<rparr>\<rparr>)"

definition submit :: "PagerDutyAlert \<Rightarrow> string \<Rightarrow> real \<Rightarrow> AlertIntake \<Rightarrow> string \<times> AlertIntake" where
  "submit a tr now s =
     (if shutting_down s then (''rejected'', s)
      else if incident_id a \<in> known_incidents s then
        (''deduplicated'',
         s\<lparr>state := (state s)\<lparr>alerts_deduplicated := alerts_deduplicated (state s) + 1\<rparr>,
           telemetry := (telemetry s)\<lparr>alerts_deduplicated_counter :=
                          alerts_deduplicated_counter (telemetry s) + 1\<rparr>\<rparr>)
      else
        (let s1 = s\<lparr>known_incidents := insert (incident_id a) (known_incidents s)\<rparr>;
             can_dispatch = (active_services s1 (service_name a) = None
                             \<and> active_count s1 < max_concurrent s1)
         in if can_dispatch then (''dispatched'', dispatch_alert a tr now s1)
            else
              (let queued = \<lparr>alert = a, trace_id = tr, enqueued_at = now,
                             priority_rank = priority_rank_fn (priority a)\<rparr>
               in (''queued'',
                   s1\<lparr>queue := heappush (queue s1) queued,
                      state := (state s1)\<lparr>alerts_queued := alerts_queued (state s1) + 1\<rparr>,
                      telemetry := (telemetry s1)
                        \<lparr>alerts_queued_counter := alerts_queued_counter (telemetry s1) + 1,
                         intake_queue_depth_updown :=
                           intake_queue_depth_updown (telemetry s1) + 1\<rparr>\<rparr>))))"

text \<open>
  \<^verbatim>\<open>shutdown\<close>, the part under the lock: the loop over the queue discards each queued
  incident id and decrements the gauge once per entry.
\<close>

fun shutdown_discard :: "QueuedAlert list \<Rightarrow> AlertIntake \<Rightarrow> AlertIntake" where
  "shutdown_discard [] s = s"
| "shutdown_discard (item # items) s =
     shutdown_discard items
       (s\<lparr>known_incidents := known_incidents s - {incident_id (alert item)},
          telemetry := (telemetry s)\<lparr>intake_queue_depth_updown :=
                         intake_queue_depth_updown (telemetry s) - 1\<rparr>\<rparr>)"

definition shutdown :: "AlertIntake \<Rightarrow> AlertIntake" where
  "shutdown s =
     (let s1 = s\<lparr>shutting_down := True\<rparr>;
          s2 = shutdown_discard (queue s1) s1
      in s2\<lparr>queue := []\<rparr>)"

definition queue_depth :: "AlertIntake \<Rightarrow> int" where
  "queue_depth s = int (length (queue s))"

text \<open>
  The \<^verbatim>\<open>while self._queue\<close> loop of \<^verbatim>\<open>_dispatch_next\<close>. The loop state is the intake
  (whose queue shrinks by one pop per iteration) with the local variables
  \<^verbatim>\<open>eligible\<close> and \<^verbatim>\<open>remaining\<close>; \<open>now\<close> is the clock value read before the loop.
\<close>

function dispatch_scan ::
  "real \<Rightarrow> AlertIntake \<Rightarrow> QueuedAlert option \<Rightarrow> QueuedAlert list
     \<Rightarrow> AlertIntake \<times> QueuedAlert option \<times> QueuedAlert list" where
  "dispatch_scan now s eligible remaining =
     (case heappop (queue s) of
        None \<Rightarrow> (s, eligible, remaining)
      | Some (candidate, rest) \<Rightarrow>
          (if now - enqueued_at candidate > real_of_int (queue_ttl_seconds s) then
             dispatch_scan now
               (s\<lparr>queue := rest,
                  known_incidents := known_incidents s - {incident_id (alert candidate)},
                  state := (state s)\<lparr>alerts_expired := alerts_expired (state s) + 1\<rparr>,
                  telemetry := (telemetry s)
                    \<lparr>alerts_expired_counter := alerts_expired_counter (telemetry s) + 1,
                     intake_queue_depth_updown :=
                       intake_queue_depth_updown (telemetry s) - 1\<rparr>\<rparr>)
               eligible remaining
           else if eligible = None \<and> active_services s (service_name (alert candidate)) = None
           then
             dispatch_scan now
               (s\<lparr>queue := rest,
                  telemetry := (telemetry s)\<lparr>intake_queue_depth_updown :=
                                 intake_queue_depth_updown (telemetry s) - 1\<rparr>\<rparr>)
               (Some candidate) remaining
           else dispatch_scan now (s\<lparr>queue := rest\<rparr>) eligible (remaining @ [candidate])))"
  by pat_completeness auto
termination
  by (relation "measure (\<lambda>(now, s, eligible, remaining). length (queue s))")
     (auto dest: length_heappop)

declare dispatch_scan.simps [simp del]

definition dispatch_next :: "real \<Rightarrow> real \<Rightarrow> AlertIntake \<Rightarrow> AlertIntake" where
  "dispatch_next now now2 s =
     (if queue s = [] \<or> active_count s \<ge> max_concurrent s then s
      else
        (case dispatch_scan now s None [] of
           (s1, eligible, remaining) \<Rightarrow>
             (let s2 = s1\<lparr>queue := heapify remaining\<rparr>
              in case eligible of
                   None \<Rightarrow> s2
                 | Some e \<Rightarrow> dispatch_alert (alert e) (trace_id e) now2 s2)))"

text \<open>
  \<^verbatim>\<open>_on_complete\<close>; \<open>now\<close> and \<open>now2\<close> are the two clock reads of the scan it may run.
\<close>

definition on_complete :: "PagerDutyAlert \<Rightarrow> real \<Rightarrow> real \<Rightarrow> AlertIntake \<Rightarrow> AlertIntake" where
  "on_complete a now now2 s =
     (let s1 = s\<lparr>active_count := active_count s - 1,
                 known_incidents := known_incidents s - {incident_id a},
                 active_services := (active_services s)(service_name a := None)\<rparr>
      in if \<not> shutting_down s1 then dispatch_next now now2 s1 else s1)"

text \<open>
  The end of \<^verbatim>\<open>_run_wrapper\<close>: the processing function has returned or raised, the
  run stops being a running one and \<^verbatim>\<open>_on_complete\<close> is executed.
\<close>

definition run_finished ::
  "PagerDutyAlert \<Rightarrow> string \<Rightarrow> real \<Rightarrow> real \<Rightarrow> AlertIntake \<Rightarrow> AlertIntake" where
  "run_finished a tr now now2 s =
     on_complete a now now2 (s\<lparr>running := remove1 (a, tr) (running s)\<rparr>)"

text \<open>
  One event of the pipeline, as a transition of the intake state: an alert is submitted,
  a started run finishes, the processing function (outside the lock) changes the shared
  runtime state and the instruments, or shutdown is initiated. The pipeline is created
  empty.
\<close>

inductive step :: "AlertIntake \<Rightarrow> AlertIntake \<Rightarrow> bool" where
  st_submit: "step s (snd (submit a tr now s))"
| st_finish: "(a, tr) \<in> set (running s) \<Longrightarrow> step s (run_finished a tr now now2 s)"
| st_process: "step s (s\<lparr>state := st, telemetry := tel\<rparr>)"
| st_shutdown: "step s (shutdown s)"

inductive reachable :: "AlertIntake \<Rightarrow> bool" where
  r_init: "reachable (AlertIntake_init st tel maxc ttl)"
| r_step: "reachable s \<Longrightarrow> step s s' \<Longrightarrow> reachable s'"

text \<open>Consecutive submits of one alert, each with its own trace id and clock value.\<close>

fun submit_all ::
  "PagerDutyAlert \<Rightarrow> (string \<times> real) list \<Rightarrow> AlertIntake \<Rightarrow> string list \<times> AlertIntake" where
  "submit_all a [] s = ([], s)"
| "submit_all a ((tr, now) # rest) s =
     (case submit a tr now s of
        (d, s1) \<Rightarrow> (case submit_all a rest s1 of (ds, s2) \<Rightarrow> (d # ds, s2)))"

section \<open>Example alerts and states\<close>

definition ex_inc1 :: PagerDutyAlert where
  "ex_inc1 = \<lparr>incident_id = ''inc-1'', service_name = ''api'', severity = HIGH,
               priority = Some P2, description = ''latency''\<rparr>"

definition ex_inc2 :: PagerDutyAlert where
  "ex_inc2 = \<lparr>incident_id = ''inc-2'', service_name = ''db'', severity = HIGH,
               priority = Some P2, description = ''disk''\<rparr>"

text \<open>
  A pipeline with \<open>max_concurrent = 1\<close> and a TTL of 600 seconds: \<open>inc-1\<close> is submitted
  at time 0 and dispatched, \<open>inc-2\<close> is submitted at time 1 and queued, the run of
  \<open>inc-1\<close> finishes at time 2 (which elects \<open>inc-2\<close>), and shutdown is initiated.
\<close>

definition ex_s0 :: AlertIntake where
  "ex_s0 = AlertIntake_init RuntimeState_init Telemetry_init 1 600"

definition ex_s1 :: AlertIntake where
  "ex_s1 = snd (submit ex_inc1 ''t1'' 0 ex_s0)"

definition ex_s2 :: AlertIntake where
  "ex_s2 = snd (submit ex_inc2 ''t2'' 1 ex_s1)"

definition ex_s3 :: AlertIntake where
  "ex_s3 = run_finished ex_inc1 ''t1'' 2 3 ex_s2"

definition ex_s4 :: AlertIntake where
  "ex_s4 = shutdown ex_s3"

lemmas ex_defs =
  ex_inc1_def ex_inc2_def ex_s0_def ex_s1_def ex_s2_def ex_s3_def ex_s4_def
  AlertIntake_init_def RuntimeState_init_def Telemetry_init_def

lemmas intake_defs =
  submit_def dispatch_alert_def start_run_def run_finished_def on_complete_def
  dispatch_next_def shutdown_def priority_rank_fn_def Let_def

lemmas heap_defs =
  heappush_def heappop_def heapify_def siftup_def siftdown_def smaller_child_def
  QueuedAlert_lt_def siftdown_loop.simps siftup_loop.simps dispatch_scan.simps

section \<open>Shutdown\<close>

lemma shutdown_discard_frame:
  "shutting_down (shutdown_discard q s) = shutting_down s"
  "queue (shutdown_discard q s) = queue s"
  "active_count (shutdown_discard q s) = active_count s"
  "active_services (shutdown_discard q s) = active_services s"
  "running (shutdown_discard q s) = running s"
  "max_concurrent (shutdown_discard q s) = max_concurrent s"
  "state (shutdown_discard q s) = state s"
  by (induction q arbitrary: s) auto

lemma shutdown_discard_known:
  "known_incidents (shutdown_discard q s) =
     known_incidents s - (\<lambda>item. incident_id (alert item)) ` set q"
  by (induction q arbitrary: s) auto

lemma shutdown_discard_gauge:
  "intake_queue_depth_updown (telemetry (shutdown_discard q s)) =
     intake_queue_depth_updown (telemetry s) - int (length q)"
  by (induction q arbitrary: s) auto

lemma submit_rejected: "shutting_down s \<Longrightarrow> submit a tr now s = (''rejected'', s)"
  by (simp add: submit_def)

lemma step_shutting_down:
  assumes "step s s'" and "shutting_down s" and "queue s = []"
  shows "shutting_down s' \<and> queue s' = []"
  using assms
  by (induction rule: step.induct)
     (auto simp: submit_def run_finished_def on_complete_def shutdown_def Let_def
        shutdown_discard_frame)

lemma steps_shutting_down:
  assumes "step\<^sup>*\<^sup>* s s'" and "shutting_down s" and "queue s = []"
  shows "shutting_down s' \<and> queue s' = []"
  using assms
  by (induction rule: rtranclp_induct) (auto dest: step_shutting_down)

text \<open>
  Claim C7. Shutdown sets \<open>shutting_down\<close>, empties the queue (so \<open>queue_depth\<close> is 0),
  removes the incident id of every queued alert from \<open>known_incidents\<close> and decrements
  the queue-depth gauge once per queued entry. In every state the pipeline reaches
  afterwards, by any sequence of events, \<open>shutting_down\<close> is still set, the queue is
  still empty, and every submit returns \<open>rejected\<close> and leaves the whole intake state as
  it was.
\<close>

theorem shutdown_drains_and_rejects:
  "queue (shutdown s) = [] \<and> queue_depth (shutdown s) = 0
   \<and> known_incidents (shutdown s) =
       known_incidents s - (\<lambda>item. incident_id (alert item)) ` set (queue s)
   \<and> intake_queue_depth_updown (telemetry (shutdown s)) =
       intake_queue_depth_updown (telemetry s) - int (length (queue s))
   \<and> (\<forall>s'. step\<^sup>*\<^sup>* (shutdown s) s' \<longrightarrow>
         shutting_down s' \<and> queue_depth s' = 0
         \<and> (\<forall>a tr now. submit a tr now s' = (''rejected'', s')))"
proof -
  have sd: "shutting_down (shutdown s)" and q: "queue (shutdown s) = []"
    by (simp_all add: shutdown_def Let_def shutdown_discard_frame)
  have k: "known_incidents (shutdown s) =
       known_incidents s - (\<lambda>item. incident_id (alert item)) ` set (queue s)"
    by (simp add: shutdown_def Let_def shutdown_discard_known)
  have g: "intake_queue_depth_updown (telemetry (shutdown s)) =
       intake_queue_depth_updown (telemetry s) - int (length (queue s))"
    by (simp add: shutdown_def Let_def shutdown_discard_gauge)
  have later: "shutting_down s' \<and> queue_depth s' = 0
         \<and> (\<forall>a tr now. submit a tr now s' = (''rejected'', s'))"
    if "step\<^sup>*\<^sup>* (shutdown s) s'" for s'
    using steps_shutting_down [OF that sd q]
    by (simp add: queue_depth_def submit_rejected)
  from q k g later show ?thesis
    by (simp add: queue_depth_def)
qed

text \<open>
  The theorem at the example: shutdown while \<open>inc-1\<close> runs and \<open>inc-2\<close> waits, followed
  by a submit (one event later).
\<close>

theorem shutdown_drains_and_rejects_witness:
  "step\<^sup>*\<^sup>* (shutdown ex_s2) (snd (submit ex_inc2 ''t9'' 9 (shutdown ex_s2)))
   \<and> known_incidents ex_s2 = {''inc-1'', ''inc-2''}
   \<and> known_incidents (shutdown ex_s2) = {''inc-1''}
   \<and> queue_depth ex_s2 = 1
   \<and> queue_depth (shutdown ex_s2) = 0
   \<and> shutting_down (snd (submit ex_inc2 ''t9'' 9 (shutdown ex_s2)))
   \<and> submit ex_inc1 ''t10'' 10 (snd (submit ex_inc2 ''t9'' 9 (shutdown ex_s2)))
       = (''rejected'', snd (submit ex_inc2 ''t9'' 9 (shutdown ex_s2)))"
proof -
  have r: "step\<^sup>*\<^sup>* (shutdown ex_s2) (snd (submit ex_inc2 ''t9'' 9 (shutdown ex_s2)))"
    by (rule r_into_rtranclp) (rule st_submit)
  have k: "known_incidents ex_s2 = {''inc-1'', ''inc-2''}"
    by (simp add: ex_defs intake_defs) auto
  have q: "map (\<lambda>item. incident_id (alert item)) (queue ex_s2) = [''inc-2'']"
    by (simp add: ex_defs intake_defs heap_defs)
  have i: "(\<lambda>item. incident_id (alert item)) ` set (queue ex_s2) = {''inc-2''}"
    using arg_cong [OF q, of set] by simp
  have d: "queue_depth ex_s2 = 1"
    using arg_cong [OF q, of length] by (simp add: queue_depth_def)
  from shutdown_drains_and_rejects [of ex_s2] r k i d show ?thesis
    by auto
qed


section \<open>Service serialization and the concurrency cap\<close>

text \<open>
  What the loop of the scan leaves alone, and what it can elect: the candidate elected
  by the scan has a service with no entry in \<open>active_services\<close>.
\<close>

lemma dispatch_scan_frame:
  "dispatch_scan now s el rem = (s1, e, r) \<Longrightarrow>
   shutting_down s1 = shutting_down s \<and> max_concurrent s1 = max_concurrent s
   \<and> queue_ttl_seconds s1 = queue_ttl_seconds s
   \<and> active_count s1 = active_count s \<and> active_services s1 = active_services s
   \<and> running s1 = running s \<and> queue s1 = []
   \<and> (e = el \<or> (el = None \<and> (\<exists>c. e = Some c
                      \<and> active_services s (service_name (alert c)) = None)))"
proof (induction now s el rem arbitrary: s1 e r rule: dispatch_scan.induct)
  case (1 now s eligible remaining)
  show ?case
  proof (cases "heappop (queue s)")
    case None
    with "1.prems" show ?thesis
      by (subst (asm) dispatch_scan.simps) auto
  next
    case (Some cr)
    obtain candidate rest where cr: "cr = (candidate, rest)" by (cases cr)
    note hp = Some [unfolded cr]
    consider (expired) "now - enqueued_at candidate > real_of_int (queue_ttl_seconds s)"
      | (elect) "\<not> now - enqueued_at candidate > real_of_int (queue_ttl_seconds s)"
          "eligible = None \<and> active_services s (service_name (alert candidate)) = None"
      | (hold) "\<not> now - enqueued_at candidate > real_of_int (queue_ttl_seconds s)"
          "\<not> (eligible = None \<and> active_services s (service_name (alert candidate)) = None)"
      by blast
    then show ?thesis
    proof cases
      case expired
      from "1.prems" hp expired
      have "dispatch_scan now
               (s\<lparr>queue := rest,
                  known_incidents := known_incidents s - {incident_id (alert candidate)},
                  state := (state s)\<lparr>alerts_expired := alerts_expired (state s) + 1\<rparr>,
                  telemetry := (telemetry s)
                    \<lparr>alerts_expired_counter := alerts_expired_counter (telemetry s) + 1,
                     intake_queue_depth_updown :=
                       intake_queue_depth_updown (telemetry s) - 1\<rparr>\<rparr>)
               eligible remaining = (s1, e, r)"
        by (subst (asm) dispatch_scan.simps) simp
      from "1.IH"(1) [OF hp refl expired this] show ?thesis by simp
    next
      case elect
      from "1.prems" hp elect
      have "dispatch_scan now
               (s\<lparr>queue := rest,
                  telemetry := (telemetry s)\<lparr>intake_queue_depth_updown :=
                                 intake_queue_depth_updown (telemetry s) - 1\<rparr>\<rparr>)
               (Some candidate) remaining = (s1, e, r)"
        by (subst (asm) dispatch_scan.simps) simp
      from "1.IH"(2) [OF hp refl elect this] elect show ?thesis by auto
    next
      case hold
      from "1.prems" hp hold
      have "dispatch_scan now (s\<lparr>queue := rest\<rparr>) eligible (remaining @ [candidate])
              = (s1, e, r)"
        by (subst (asm) dispatch_scan.simps) auto
      from "1.IH"(3) [OF hp refl hold this] show ?thesis by simp
    qed
  qed
qed

text \<open>The service a running entry works on, and the invariant of the pipeline.\<close>

definition run_service :: "PagerDutyAlert \<times> string \<Rightarrow> string" where
  "run_service r = service_name (fst r)"

definition intake_inv :: "AlertIntake \<Rightarrow> bool" where
  "intake_inv s \<longleftrightarrow>
     active_count s = int (length (running s))
     \<and> distinct (map run_service (running s))
     \<and> dom (active_services s) = run_service ` set (running s)
     \<and> (0 \<le> max_concurrent s \<longrightarrow> active_count s \<le> max_concurrent s)"

lemma image_remove1_distinct:
  "distinct (map f xs) \<Longrightarrow> x \<in> set xs \<Longrightarrow> f ` set (remove1 x xs) = f ` set xs - {f x}"
  by (induction xs) auto

lemma distinct_map_remove1: "distinct (map f xs) \<Longrightarrow> distinct (map f (remove1 x xs))"
  using set_remove1_subset [of x xs]
  by (auto simp: distinct_map intro: inj_on_subset)

lemma intake_inv_dispatch:
  assumes "intake_inv s" and "active_services s (service_name a) = None"
    and "active_count s < max_concurrent s"
  shows "intake_inv (dispatch_alert a tr now s)"
proof -
  from assms(2) have "service_name a \<notin> dom (active_services s)"
    by (simp add: domIff)
  with assms(1) have "service_name a \<notin> run_service ` set (running s)"
    by (simp add: intake_inv_def)
  with assms(1,3) show ?thesis
    by (auto simp: intake_inv_def dispatch_alert_def start_run_def run_service_def)
qed

lemma intake_inv_submit: "intake_inv s \<Longrightarrow> intake_inv (snd (submit a tr now s))"
proof -
  assume inv: "intake_inv s"
  let ?s1 = "s\<lparr>known_incidents := insert (incident_id a) (known_incidents s)\<rparr>"
  have k: "intake_inv ?s1"
    using inv by (auto simp: intake_inv_def)
  have d: "intake_inv (dispatch_alert a tr now ?s1)"
    if "active_services s (service_name a) = None" "active_count s < max_concurrent s"
    using intake_inv_dispatch [OF k, of a tr now] that by simp
  show ?thesis
    using inv d by (auto simp: submit_def Let_def) (auto simp: intake_inv_def)
qed

lemma intake_inv_dispatch_next:
  assumes "intake_inv s"
  shows "intake_inv (dispatch_next now now2 s)"
proof (cases "queue s = [] \<or> active_count s \<ge> max_concurrent s")
  case True
  with assms show ?thesis by (simp add: dispatch_next_def)
next
  case False
  obtain s1 e r where sc: "dispatch_scan now s None [] = (s1, e, r)"
    by (cases "dispatch_scan now s None []")
  note fr = dispatch_scan_frame [OF sc]
  let ?s2 = "s1\<lparr>queue := heapify r\<rparr>"
  have inv2: "intake_inv ?s2"
    using assms fr by (auto simp: intake_inv_def)
  show ?thesis
  proof (cases e)
    case None
    with sc False inv2 show ?thesis by (simp add: dispatch_next_def)
  next
    case (Some c)
    with fr have free: "active_services ?s2 (service_name (alert c)) = None"
      by auto
    from False fr have "active_count ?s2 < max_concurrent ?s2"
      by simp
    from intake_inv_dispatch [OF inv2 free this] Some sc False show ?thesis
      by (simp add: dispatch_next_def)
  qed
qed

lemma intake_inv_run_finished:
  assumes "intake_inv s" and "(a, tr) \<in> set (running s)"
  shows "intake_inv (run_finished a tr now now2 s)"
proof -
  let ?s1 = "s\<lparr>running := remove1 (a, tr) (running s),
               active_count := active_count s - 1,
               known_incidents := known_incidents s - {incident_id a},
               active_services := (active_services s)(service_name a := None)\<rparr>"
  from assms(2) have pos: "0 < length (running s)"
    by (rule length_pos_if_in_set)
  with assms(2)
  have len: "int (length (remove1 (a, tr) (running s))) = int (length (running s)) - 1"
    by (simp add: length_remove1 Suc_leI)
  from assms have d: "distinct (map run_service (running s))"
    by (simp add: intake_inv_def)
  have img: "run_service ` set (remove1 (a, tr) (running s)) =
               run_service ` set (running s) - {service_name a}"
    using image_remove1_distinct [OF d assms(2)] by (simp add: run_service_def)
  have inv1: "intake_inv ?s1"
    using assms(1) len pos img distinct_map_remove1 [OF d, of "(a, tr)"]
    by (auto simp: intake_inv_def)
  have "run_finished a tr now now2 s =
          (if \<not> shutting_down s then dispatch_next now now2 ?s1 else ?s1)"
    by (simp add: run_finished_def on_complete_def Let_def)
  with inv1 intake_inv_dispatch_next [OF inv1] show ?thesis
    by simp
qed

lemma intake_inv_step: "step s s' \<Longrightarrow> intake_inv s \<Longrightarrow> intake_inv s'"
proof (induction rule: step.induct)
  case (st_submit s a tr now)
  then show ?case by (rule intake_inv_submit)
next
  case (st_finish a tr s now now2)
  then show ?case by (simp add: intake_inv_run_finished)
next
  case (st_process s st tel)
  then show ?case by (auto simp: intake_inv_def)
next
  case (st_shutdown s)
  then show ?case
    by (auto simp: intake_inv_def shutdown_def Let_def shutdown_discard_frame)
qed

lemma reachable_intake_inv: "reachable s \<Longrightarrow> intake_inv s"
proof (induction rule: reachable.induct)
  case (r_init st tel maxc ttl)
  show ?case by (simp add: intake_inv_def AlertIntake_init_def)
next
  case (r_step s s')
  then show ?case by (simp add: intake_inv_step)
qed

text \<open>
  Claim C2. In every state reached by any sequence of submit, completion, processing and
  shutdown events from a newly created pipeline: (a) no two running entries have the same
  service name, and the keys of \<open>active_services\<close> are exactly the services of the
  running entries; (b) \<open>active_count\<close> is the number of running entries, hence
  non-negative, and it is at most \<open>max_concurrent\<close> (for a pipeline created with a
  non-negative \<open>max_concurrent\<close>; the configuration loader only admits values of at
  least 1).
\<close>

theorem service_serialization_and_cap:
  assumes "reachable s"
  shows "distinct (map run_service (running s))
         \<and> dom (active_services s) = run_service ` set (running s)
         \<and> active_count s = int (length (running s))
         \<and> 0 \<le> active_count s
         \<and> (0 \<le> max_concurrent s \<longrightarrow> active_count s \<le> max_concurrent s)"
  using reachable_intake_inv [OF assms] by (auto simp: intake_inv_def)

lemma reachable_ex_s3: "reachable ex_s3"
proof -
  have 0: "reachable ex_s0"
    unfolding ex_s0_def by (rule r_init)
  have 1: "reachable ex_s1"
    unfolding ex_s1_def by (rule r_step [OF 0 st_submit])
  have 2: "reachable ex_s2"
    unfolding ex_s2_def by (rule r_step [OF 1 st_submit])
  have "(ex_inc1, ''t1'') \<in> set (running ex_s2)"
    by (simp add: ex_defs intake_defs)
  from r_step [OF 2 st_finish [OF this]] show ?thesis
    unfolding ex_s3_def .
qed

text \<open>The theorem at the example state in which \<open>inc-2\<close> runs after \<open>inc-1\<close> finished.\<close>

theorem service_serialization_and_cap_witness:
  "reachable ex_s3
   \<and> map run_service (running ex_s3) = [''db'']
   \<and> max_concurrent ex_s3 = 1
   \<and> distinct (map run_service (running ex_s3))
   \<and> 0 \<le> active_count ex_s3 \<and> active_count ex_s3 \<le> max_concurrent ex_s3"
proof -
  have r: "map run_service (running ex_s3) = [''db'']"
    by (simp add: ex_defs intake_defs heap_defs run_service_def)
  have m: "max_concurrent ex_s3 = 1"
    by (simp add: ex_defs intake_defs heap_defs)
  from service_serialization_and_cap [OF reachable_ex_s3] reachable_ex_s3 r m
  show ?thesis by simp
qed


section \<open>The order in which the scan sees the queue\<close>

text \<open>The items of a heap in the order in which repeated \<^verbatim>\<open>heappop\<close> returns them.\<close>

function heap_drain :: "QueuedAlert list \<Rightarrow> QueuedAlert list" where
  "heap_drain h = (case heappop h of None \<Rightarrow> [] | Some (x, h') \<Rightarrow> x # heap_drain h')"
  by pat_completeness auto
termination
  by (relation "measure length") (auto dest: length_heappop)

declare heap_drain.simps [simp del]

text \<open>A list without its first item that satisfies \<open>P\<close>.\<close>

fun remove_first :: "('a \<Rightarrow> bool) \<Rightarrow> 'a list \<Rightarrow> 'a list" where
  "remove_first P [] = []"
| "remove_first P (x # xs) = (if P x then xs else x # remove_first P xs)"

text \<open>The tests of the scan, for the clock value and the state it starts with.\<close>

definition expired :: "real \<Rightarrow> AlertIntake \<Rightarrow> QueuedAlert \<Rightarrow> bool" where
  "expired now s c \<longleftrightarrow> now - enqueued_at c > real_of_int (queue_ttl_seconds s)"

definition service_free :: "AlertIntake \<Rightarrow> QueuedAlert \<Rightarrow> bool" where
  "service_free s c \<longleftrightarrow> active_services s (service_name (alert c)) = None"

lemma heap_drain_Nil [simp]: "heap_drain [] = []"
  by (subst heap_drain.simps) (simp add: heappop_def)

lemma heap_drain_pop: "heappop h = Some (x, h') \<Longrightarrow> heap_drain h = x # heap_drain h'"
  by (subst heap_drain.simps) simp

lemma heap_drain_correct:
  "is_heap h \<Longrightarrow> sorted_wrt QueuedAlert_le (heap_drain h) \<and> mset (heap_drain h) = mset h"
proof (induction h rule: heap_drain.induct)
  case (1 h)
  show ?case
  proof (cases "heappop h")
    case None
    then show ?thesis by simp
  next
    case (Some p)
    obtain x h' where p: "p = (x, h')" by (cases p)
    note pop = Some [unfolded p]
    from heappop_correct [OF "1.prems" pop]
    have hp: "is_heap h'" and m: "mset h = add_mset x (mset h')"
      and least: "\<forall>y\<in>set h. QueuedAlert_le x y"
      by simp_all
    from "1.IH" [OF pop refl hp]
    have ih: "sorted_wrt QueuedAlert_le (heap_drain h')" "mset (heap_drain h') = mset h'"
      by simp_all
    have "set (heap_drain h') \<subseteq> set h"
      using ih(2) m by (metis set_mset_add_mset_insert set_mset_mset subset_insertI)
    with least ih m show ?thesis
      by (auto simp: heap_drain_pop [OF pop])
  qed
qed

lemma expired_cong:
  "queue_ttl_seconds s' = queue_ttl_seconds s \<Longrightarrow> expired now s' = expired now s"
  by (simp add: expired_def fun_eq_iff)

lemma service_free_cong:
  "active_services s' = active_services s \<Longrightarrow> service_free s' = service_free s"
  by (simp add: service_free_def fun_eq_iff)

text \<open>
  What the loop of the scan computes, in terms of the pop order \<open>heap_drain (queue s)\<close>:
  every expired candidate is discarded, the first live candidate with a free service is
  elected, and the other live candidates are collected in pop order.
\<close>

lemma dispatch_scan_result:
  "dispatch_scan now s el rem = (s1, e, r) \<Longrightarrow>
   known_incidents s1 =
     known_incidents s
       - (\<lambda>c. incident_id (alert c)) ` set (filter (expired now s) (heap_drain (queue s)))
   \<and> state s1 = (state s)\<lparr>alerts_expired := alerts_expired (state s)
        + int (length (filter (expired now s) (heap_drain (queue s))))\<rparr>
   \<and> telemetry s1 = (telemetry s)
        \<lparr>alerts_expired_counter := alerts_expired_counter (telemetry s)
           + int (length (filter (expired now s) (heap_drain (queue s)))),
         intake_queue_depth_updown := intake_queue_depth_updown (telemetry s)
           - int (length (filter (expired now s) (heap_drain (queue s))))
           - (if el = None \<and> e \<noteq> None then 1 else 0)\<rparr>
   \<and> e = (case el of
            Some x \<Rightarrow> Some x
          | None \<Rightarrow> find (service_free s)
                      (filter (\<lambda>c. \<not> expired now s c) (heap_drain (queue s))))
   \<and> r = rem @ (if el = None
                then remove_first (service_free s)
                       (filter (\<lambda>c. \<not> expired now s c) (heap_drain (queue s)))
                else filter (\<lambda>c. \<not> expired now s c) (heap_drain (queue s)))"
proof (induction now s el rem arbitrary: s1 e r rule: dispatch_scan.induct)
  case (1 now s eligible remaining)
  show ?case
  proof (cases "heappop (queue s)")
    case None
    then have q: "queue s = []" by simp
    have "dispatch_scan now s eligible remaining = (s, eligible, remaining)"
      by (subst dispatch_scan.simps) (simp add: None)
    with "1.prems" have "s1 = s" "e = eligible" "r = remaining"
      by simp_all
    then show ?thesis
      by (auto simp: q split: option.splits)
  next
    case (Some cr)
    obtain candidate rest where cr: "cr = (candidate, rest)" by (cases cr)
    note hp = Some [unfolded cr]
    note dr = heap_drain_pop [OF hp]
    consider (expired) "now - enqueued_at candidate > real_of_int (queue_ttl_seconds s)"
      | (elect) "\<not> now - enqueued_at candidate > real_of_int (queue_ttl_seconds s)"
          "eligible = None \<and> active_services s (service_name (alert candidate)) = None"
      | (hold) "\<not> now - enqueued_at candidate > real_of_int (queue_ttl_seconds s)"
          "\<not> (eligible = None \<and> active_services s (service_name (alert candidate)) = None)"
      by blast
    then show ?thesis
    proof cases
      case expired
      let ?s = "s\<lparr>queue := rest,
                  known_incidents := known_incidents s - {incident_id (alert candidate)},
                  state := (state s)\<lparr>alerts_expired := alerts_expired (state s) + 1\<rparr>,
                  telemetry := (telemetry s)
                    \<lparr>alerts_expired_counter := alerts_expired_counter (telemetry s) + 1,
                     intake_queue_depth_updown :=
                       intake_queue_depth_updown (telemetry s) - 1\<rparr>\<rparr>"
      from "1.prems" hp expired
      have "dispatch_scan now ?s eligible remaining = (s1, e, r)"
        by (subst (asm) dispatch_scan.simps) simp
      note ih = "1.IH"(1) [OF hp refl expired this]
      have c: "expired now ?s = expired now s" "service_free ?s = service_free s"
        "queue ?s = rest"
        by (rule expired_cong, simp) (rule service_free_cong, simp, simp)
      have x: "expired now s candidate"
        using expired by (simp add: expired_def)
      from ih [unfolded c] show ?thesis
        unfolding dr by (cases eligible) (auto simp: x)
    next
      case elect
      let ?s = "s\<lparr>queue := rest,
                  telemetry := (telemetry s)\<lparr>intake_queue_depth_updown :=
                                 intake_queue_depth_updown (telemetry s) - 1\<rparr>\<rparr>"
      from "1.prems" hp elect
      have "dispatch_scan now ?s (Some candidate) remaining = (s1, e, r)"
        by (subst (asm) dispatch_scan.simps) simp
      note ih = "1.IH"(2) [OF hp refl elect this]
      have c: "expired now ?s = expired now s" "service_free ?s = service_free s"
        "queue ?s = rest"
        by (rule expired_cong, simp) (rule service_free_cong, simp, simp)
      have x: "\<not> expired now s candidate" "service_free s candidate"
        using elect by (simp_all add: expired_def service_free_def)
      from ih [unfolded c] elect show ?thesis
        unfolding dr by (cases eligible) (auto simp: x)
    next
      case hold
      let ?s = "s\<lparr>queue := rest\<rparr>"
      from "1.prems" hp hold
      have "dispatch_scan now ?s eligible (remaining @ [candidate]) = (s1, e, r)"
        by (subst (asm) dispatch_scan.simps) auto
      note ih = "1.IH"(3) [OF hp refl hold this]
      have c: "expired now ?s = expired now s" "service_free ?s = service_free s"
        "queue ?s = rest"
        by (rule expired_cong, simp) (rule service_free_cong, simp, simp)
      have x: "\<not> expired now s candidate" "eligible = None \<Longrightarrow> \<not> service_free s candidate"
        using hold by (simp_all add: expired_def service_free_def)
      from ih [unfolded c] x(2) show ?thesis
        unfolding dr by (cases eligible) (auto simp: x(1))
    qed
  qed
qed

lemma set_remove_first: "set (remove_first P xs) \<subseteq> set xs"
  by (induction xs) auto

lemma find_first:
  assumes "find P xs = Some e" and "sorted_wrt R xs" and "\<And>x. R x x"
    and "q \<in> set xs" and "P q"
  shows "e \<in> set xs \<and> P e \<and> R e q"
  using assms
proof (induction xs)
  case Nil
  then show ?case by simp
next
  case (Cons x xs)
  show ?case
  proof (cases "P x")
    case True
    with Cons.prems show ?thesis by auto
  next
    case False
    with Cons.prems have "q \<in> set xs" by auto
    with Cons False show ?thesis by auto
  qed
qed

text \<open>
  The queue is a heap in every reachable state, and the rank of each queued alert is the
  rank of its priority.
\<close>

definition queue_inv :: "AlertIntake \<Rightarrow> bool" where
  "queue_inv s \<longleftrightarrow>
     is_heap (queue s)
     \<and> (\<forall>q\<in>set (queue s). priority_rank q = priority_rank_fn (priority (alert q)))"

lemma queue_of_dispatch_alert [simp]: "queue (dispatch_alert a tr now s) = queue s"
  by (simp add: dispatch_alert_def start_run_def)

lemma queue_inv_submit: "queue_inv s \<Longrightarrow> queue_inv (snd (submit a tr now s))"
proof -
  assume inv: "queue_inv s"
  let ?q = "\<lparr>alert = a, trace_id = tr, enqueued_at = now,
             priority_rank = priority_rank_fn (priority a)\<rparr>"
  from inv have "is_heap (queue s)" by (simp add: queue_inv_def)
  from heappush_correct [OF this, of ?q]
  have h: "is_heap (heappush (queue s) ?q)"
    and m: "mset (heappush (queue s) ?q) = add_mset ?q (mset (queue s))"
    by simp_all
  from m have "set (heappush (queue s) ?q) = insert ?q (set (queue s))"
    by (metis set_mset_add_mset_insert set_mset_mset)
  with inv h show ?thesis
    by (auto simp: submit_def Let_def queue_inv_def)
qed

lemma queue_dispatch_next:
  assumes "is_heap (queue s)"
  shows "is_heap (queue (dispatch_next now now2 s))
         \<and> set (queue (dispatch_next now now2 s)) \<subseteq> set (queue s)"
proof (cases "queue s = [] \<or> active_count s \<ge> max_concurrent s")
  case True
  with assms show ?thesis by (simp add: dispatch_next_def)
next
  case False
  obtain s1 e r where sc: "dispatch_scan now s None [] = (s1, e, r)"
    by (cases "dispatch_scan now s None []")
  from dispatch_scan_result [OF sc]
  have r: "r = remove_first (service_free s)
                 (filter (\<lambda>c. \<not> expired now s c) (heap_drain (queue s)))"
    by simp
  have q: "queue (dispatch_next now now2 s) = heapify r"
    using False sc by (simp add: dispatch_next_def Let_def split: option.splits)
  have "set (heapify r) = set r"
    using heapify_correct [of r] by (metis set_mset_mset)
  also have "\<dots> \<subseteq> set (heap_drain (queue s))"
    unfolding r using set_remove_first by fastforce
  also have "\<dots> = set (queue s)"
    using heap_drain_correct [OF assms] by (metis set_mset_mset)
  finally show ?thesis
    using heapify_correct [of r] by (simp add: q)
qed

lemma queue_inv_step: "step s s' \<Longrightarrow> queue_inv s \<Longrightarrow> queue_inv s'"
proof (induction rule: step.induct)
  case (st_submit s a tr now)
  then show ?case by (rule queue_inv_submit)
next
  case (st_finish a tr s now now2)
  let ?s1 = "s\<lparr>running := remove1 (a, tr) (running s),
               active_count := active_count s - 1,
               known_incidents := known_incidents s - {incident_id a},
               active_services := (active_services s)(service_name a := None)\<rparr>"
  have e: "run_finished a tr now now2 s =
          (if \<not> shutting_down s then dispatch_next now now2 ?s1 else ?s1)"
    by (simp add: run_finished_def on_complete_def Let_def)
  from st_finish have h: "is_heap (queue ?s1)" by (simp add: queue_inv_def)
  from queue_dispatch_next [OF h, of now now2] st_finish(2) show ?case
    unfolding e by (auto simp: queue_inv_def)
next
  case (st_process s st tel)
  then show ?case by (simp add: queue_inv_def)
next
  case (st_shutdown s)
  show ?case
    by (simp add: queue_inv_def shutdown_def Let_def is_heap_def heap_from_def)
qed

lemma reachable_queue_inv: "reachable s \<Longrightarrow> queue_inv s"
proof (induction rule: reachable.induct)
  case (r_init st tel maxc ttl)
  show ?case
    by (simp add: queue_inv_def AlertIntake_init_def is_heap_def heap_from_def)
next
  case (r_step s s')
  then show ?case by (simp add: queue_inv_step)
qed

lemma dispatch_next_result:
  assumes "queue s \<noteq> []" and "active_count s < max_concurrent s"
  shows "known_incidents (dispatch_next now now2 s) =
           known_incidents s
             - (\<lambda>c. incident_id (alert c)) ` set (filter (expired now s) (heap_drain (queue s)))"
    and "alerts_expired (state (dispatch_next now now2 s)) =
           alerts_expired (state s)
             + int (length (filter (expired now s) (heap_drain (queue s))))"
    and "intake_queue_depth_updown (telemetry (dispatch_next now now2 s)) =
           intake_queue_depth_updown (telemetry s)
             - int (length (filter (expired now s) (heap_drain (queue s))))
             - (if find (service_free s)
                     (filter (\<lambda>c. \<not> expired now s c) (heap_drain (queue s))) = None
                then 0 else 1)"
    and "running (dispatch_next now now2 s) =
           running s @
             (case find (service_free s)
                     (filter (\<lambda>c. \<not> expired now s c) (heap_drain (queue s))) of
                None \<Rightarrow> []
              | Some e \<Rightarrow> [(alert e, trace_id e)])"
    and "queue (dispatch_next now now2 s) =
           heapify (remove_first (service_free s)
                      (filter (\<lambda>c. \<not> expired now s c) (heap_drain (queue s))))"
proof -
  obtain s1 e r where sc: "dispatch_scan now s None [] = (s1, e, r)"
    by (cases "dispatch_scan now s None []")
  note res = dispatch_scan_result [OF sc] and fr = dispatch_scan_frame [OF sc]
  have d: "dispatch_next now now2 s =
             (case e of None \<Rightarrow> s1\<lparr>queue := heapify r\<rparr>
              | Some x \<Rightarrow> dispatch_alert (alert x) (trace_id x) now2 (s1\<lparr>queue := heapify r\<rparr>))"
    using assms sc by (simp add: dispatch_next_def Let_def)
  from res have e: "e = find (service_free s)
                     (filter (\<lambda>c. \<not> expired now s c) (heap_drain (queue s)))"
    and r: "r = remove_first (service_free s)
                 (filter (\<lambda>c. \<not> expired now s c) (heap_drain (queue s)))"
    and k: "known_incidents s1 =
           known_incidents s
             - (\<lambda>c. incident_id (alert c)) ` set (filter (expired now s) (heap_drain (queue s)))"
    and st: "alerts_expired (state s1) =
           alerts_expired (state s)
             + int (length (filter (expired now s) (heap_drain (queue s))))"
    and tel: "intake_queue_depth_updown (telemetry s1) =
           intake_queue_depth_updown (telemetry s)
             - int (length (filter (expired now s) (heap_drain (queue s))))
             - (if e = None then 0 else 1)"
    by simp_all
  show "known_incidents (dispatch_next now now2 s) =
           known_incidents s
             - (\<lambda>c. incident_id (alert c)) ` set (filter (expired now s) (heap_drain (queue s)))"
    unfolding d k [symmetric]
    by (cases e) (simp_all add: dispatch_alert_def start_run_def)
  show "alerts_expired (state (dispatch_next now now2 s)) =
           alerts_expired (state s)
             + int (length (filter (expired now s) (heap_drain (queue s))))"
    unfolding d st [symmetric]
    by (cases e) (simp_all add: dispatch_alert_def start_run_def)
  show "intake_queue_depth_updown (telemetry (dispatch_next now now2 s)) =
           intake_queue_depth_updown (telemetry s)
             - int (length (filter (expired now s) (heap_drain (queue s))))
             - (if find (service_free s)
                     (filter (\<lambda>c. \<not> expired now s c) (heap_drain (queue s))) = None
                then 0 else 1)"
    unfolding d e [symmetric] tel [symmetric]
    by (cases e) (simp_all add: dispatch_alert_def start_run_def)
  show "running (dispatch_next now now2 s) =
           running s @
             (case find (service_free s)
                     (filter (\<lambda>c. \<not> expired now s c) (heap_drain (queue s))) of
                None \<Rightarrow> []
              | Some e \<Rightarrow> [(alert e, trace_id e)])"
    using fr unfolding d e [symmetric]
    by (cases e) (simp_all add: dispatch_alert_def start_run_def)
  show "queue (dispatch_next now now2 s) =
           heapify (remove_first (service_free s)
                      (filter (\<lambda>c. \<not> expired now s c) (heap_drain (queue s))))"
    unfolding d r [symmetric]
    by (cases e) simp_all
qed

text \<open>
  The state in which the scan of a completion runs (its election point): the finished run
  is no longer running and has given back its slot and its service.
\<close>

definition released :: "PagerDutyAlert \<Rightarrow> string \<Rightarrow> AlertIntake \<Rightarrow> AlertIntake" where
  "released a tr s =
     s\<lparr>running := remove1 (a, tr) (running s),
       active_count := active_count s - 1,
       known_incidents := known_incidents s - {incident_id a},
       active_services := (active_services s)(service_name a := None)\<rparr>"

lemma run_finished_released:
  "run_finished a tr now now2 s =
     (if \<not> shutting_down s then dispatch_next now now2 (released a tr s) else released a tr s)"
  by (simp add: run_finished_def on_complete_def released_def Let_def)

lemma released_fields [simp]:
  "queue (released a tr s) = queue s"
  "queue_ttl_seconds (released a tr s) = queue_ttl_seconds s"
  "max_concurrent (released a tr s) = max_concurrent s"
  "active_count (released a tr s) = active_count s - 1"
  "known_incidents (released a tr s) = known_incidents s - {incident_id a}"
  "running (released a tr s) = remove1 (a, tr) (running s)"
  "state (released a tr s) = state s"
  "telemetry (released a tr s) = telemetry s"
  by (simp_all add: released_def)

lemma expired_released [simp]: "expired now (released a tr s) = expired now s"
  by (rule expired_cong) simp

text \<open>Example alerts and states for the scan. One slot, a TTL of 600 seconds.\<close>

definition ex_blocker :: PagerDutyAlert where
  "ex_blocker = \<lparr>incident_id = ''blocker'', service_name = ''svc-x'', severity = HIGH,
                  priority = Some P2, description = ''busy''\<rparr>"

definition ex_p4 :: "string \<Rightarrow> PagerDutyAlert" where
  "ex_p4 name = \<lparr>incident_id = name, service_name = ''svc-a'', severity = WARNING,
                  priority = Some P4, description = ''minor''\<rparr>"

definition ex_p1 :: "string \<Rightarrow> PagerDutyAlert" where
  "ex_p1 name = \<lparr>incident_id = name, service_name = ''svc-b'', severity = CRITICAL,
                  priority = Some P1, description = ''major''\<rparr>"

text \<open>
  The blocker is dispatched at time 0; then a P4 alert is queued at time \<open>t4\<close> and a P1
  alert at time \<open>t1\<close>, in the order of these times.
\<close>

definition ex_blocked :: AlertIntake where
  "ex_blocked = snd (submit ex_blocker ''t0'' 0 ex_s0)"

definition ex_low_then_critical :: AlertIntake where
  "ex_low_then_critical =
     snd (submit (ex_p1 ''critical'') ''tc'' 2 (snd (submit (ex_p4 ''low'') ''tl'' 1 ex_blocked)))"

definition ex_stale_critical :: AlertIntake where
  "ex_stale_critical =
     snd (submit (ex_p4 ''fresh'') ''tf'' 500 (snd (submit (ex_p1 ''stale'') ''ts'' 1 ex_blocked)))"

definition ex_stale_low :: AlertIntake where
  "ex_stale_low =
     snd (submit (ex_p1 ''first'') ''tf'' 650 (snd (submit (ex_p4 ''stale'') ''ts'' 1 ex_blocked)))"

lemmas scan_ex_defs =
  ex_blocker_def ex_p4_def ex_p1_def ex_blocked_def ex_low_then_critical_def
  ex_stale_critical_def ex_stale_low_def

lemma reachable_submit2:
  "reachable s \<Longrightarrow> reachable (snd (submit b tb nb (snd (submit a ta na s))))"
  by (intro r_step [OF _ st_submit])

lemma reachable_ex_blocked: "reachable ex_blocked"
  unfolding ex_blocked_def ex_s0_def by (rule r_step [OF r_init st_submit])

section \<open>The next-dispatch scan\<close>

lemma released_count:
  assumes "reachable s" and "(a, tr) \<in> set (running s)" and "0 \<le> max_concurrent s"
  shows "active_count (released a tr s) < max_concurrent (released a tr s)"
proof -
  from reachable_intake_inv [OF assms(1)] assms(3)
  have "active_count s \<le> max_concurrent s" by (simp add: intake_inv_def)
  then show ?thesis by simp
qed

text \<open>
  Claim C4, as amended. On a completion (pipeline not shutting down, queue not empty) the
  scan pops the candidates in priority/FIFO order, and it pops all of them. Every
  candidate whose age \<open>now - enqueued_at\<close> exceeds \<open>queue_ttl_seconds\<close> is discarded,
  wherever it comes in that order, also after the elected one: its incident id leaves
  \<open>known_incidents\<close>, and the expired counter and the queue-depth gauge move by one for
  each. The first non-expired candidate whose service is not in \<open>active_services\<close> is
  elected and started. All other non-expired candidates, and only they, are queued
  afterwards, again as a heap.
\<close>

theorem next_dispatch_scan:
  assumes "reachable s" and "(a, tr) \<in> set (running s)" and "\<not> shutting_down s"
    and "queue s \<noteq> []" and "0 \<le> max_concurrent s"
  shows "sorted_wrt QueuedAlert_le (heap_drain (queue s))
         \<and> mset (heap_drain (queue s)) = mset (queue s)
         \<and> known_incidents (run_finished a tr now now2 s) =
             known_incidents s - {incident_id a}
               - (\<lambda>c. incident_id (alert c)) `
                   set (filter (expired now s) (heap_drain (queue s)))
         \<and> alerts_expired (state (run_finished a tr now now2 s)) =
             alerts_expired (state s)
               + int (length (filter (expired now s) (heap_drain (queue s))))
         \<and> intake_queue_depth_updown (telemetry (run_finished a tr now now2 s)) =
             intake_queue_depth_updown (telemetry s)
               - int (length (filter (expired now s) (heap_drain (queue s))))
               - (if find (service_free (released a tr s))
                       (filter (\<lambda>c. \<not> expired now s c) (heap_drain (queue s))) = None
                  then 0 else 1)
         \<and> running (run_finished a tr now now2 s) =
             remove1 (a, tr) (running s) @
               (case find (service_free (released a tr s))
                       (filter (\<lambda>c. \<not> expired now s c) (heap_drain (queue s))) of
                  None \<Rightarrow> []
                | Some e \<Rightarrow> [(alert e, trace_id e)])
         \<and> mset (queue (run_finished a tr now now2 s)) =
             mset (remove_first (service_free (released a tr s))
                     (filter (\<lambda>c. \<not> expired now s c) (heap_drain (queue s))))
         \<and> is_heap (queue (run_finished a tr now now2 s))"
proof -
  from reachable_queue_inv [OF assms(1)] have h: "is_heap (queue s)"
    by (simp add: queue_inv_def)
  note dr = heap_drain_correct [OF h]
  have rf: "run_finished a tr now now2 s = dispatch_next now now2 (released a tr s)"
    using assms(3) by (simp add: run_finished_released)
  have q: "queue (released a tr s) \<noteq> []"
    using assms(4) by simp
  note res = dispatch_next_result [OF q released_count [OF assms(1,2,5)], of now now2]
  have "mset (queue (run_finished a tr now now2 s)) =
             mset (remove_first (service_free (released a tr s))
                     (filter (\<lambda>c. \<not> expired now s c) (heap_drain (queue s))))"
    and "is_heap (queue (run_finished a tr now now2 s))"
    unfolding rf res(5) using heapify_correct by simp_all
  with dr res(1-4) show ?thesis
    unfolding rf by simp
qed

lemma ex_low_then_critical_facts:
  "reachable ex_low_then_critical"
  "(ex_blocker, ''t0'') \<in> set (running ex_low_then_critical)"
  "\<not> shutting_down ex_low_then_critical"
  "queue ex_low_then_critical \<noteq> []"
  "0 \<le> max_concurrent ex_low_then_critical"
proof -
  show "reachable ex_low_then_critical"
    unfolding ex_low_then_critical_def by (rule reachable_submit2 [OF reachable_ex_blocked])
  show "(ex_blocker, ''t0'') \<in> set (running ex_low_then_critical)"
    "\<not> shutting_down ex_low_then_critical" "0 \<le> max_concurrent ex_low_then_critical"
    by (simp_all add: scan_ex_defs ex_defs intake_defs)
  have "length (queue ex_low_then_critical) = 2"
    by (simp add: scan_ex_defs ex_defs intake_defs)
  then show "queue ex_low_then_critical \<noteq> []" by auto
qed

lemma ex_low_then_critical_run:
  "map (\<lambda>q. incident_id (alert q)) (heap_drain (queue ex_low_then_critical))
     = [''critical'', ''low'']"
  "running (run_finished ex_blocker ''t0'' 10 11 ex_low_then_critical)
     = [(ex_p1 ''critical'', ''tc'')]"
  "map (\<lambda>q. incident_id (alert q))
     (queue (run_finished ex_blocker ''t0'' 10 11 ex_low_then_critical)) = [''low'']"
  "alerts_expired (state (run_finished ex_blocker ''t0'' 10 11 ex_low_then_critical)) = 0"
  by (simp_all add: scan_ex_defs ex_defs intake_defs heap_defs heap_drain.simps)

text \<open>
  The theorem at scenario S4: a P4 alert and then a P1 alert wait behind the blocker,
  which finishes 10 seconds in. The P1 alert is popped first and elected; the P4 alert
  stays queued.
\<close>

theorem next_dispatch_scan_witness:
  "reachable ex_low_then_critical
   \<and> (ex_blocker, ''t0'') \<in> set (running ex_low_then_critical)
   \<and> \<not> shutting_down ex_low_then_critical
   \<and> queue ex_low_then_critical \<noteq> [] \<and> 0 \<le> max_concurrent ex_low_then_critical
   \<and> map (\<lambda>q. incident_id (alert q)) (heap_drain (queue ex_low_then_critical))
       = [''critical'', ''low'']
   \<and> sorted_wrt QueuedAlert_le (heap_drain (queue ex_low_then_critical))
   \<and> running (run_finished ex_blocker ''t0'' 10 11 ex_low_then_critical)
       = [(ex_p1 ''critical'', ''tc'')]
   \<and> map (\<lambda>q. incident_id (alert q))
        (queue (run_finished ex_blocker ''t0'' 10 11 ex_low_then_critical)) = [''low'']
   \<and> is_heap (queue (run_finished ex_blocker ''t0'' 10 11 ex_low_then_critical))
   \<and> alerts_expired (state (run_finished ex_blocker ''t0'' 10 11 ex_low_then_critical)) = 0"
  using next_dispatch_scan [OF ex_low_then_critical_facts, of 10 11]
    ex_low_then_critical_facts ex_low_then_critical_run
  by (intro conjI) blast+

text \<open>
  The claim as stated fails when a stale candidate comes after the elected one. A P4
  alert queued at time 1 and a P1 alert queued at time 650 wait behind the blocker, which
  finishes at time 700. The P1 alert is popped first and elected, and the scan goes on:
  the P4 alert (699 seconds old) is popped after it and expired. It does not remain
  queued.
\<close>

theorem next_dispatch_scan_counterexample:
  "map (\<lambda>q. incident_id (alert q)) (heap_drain (queue ex_stale_low)) = [''first'', ''stale'']
   \<and> running (run_finished ex_blocker ''t0'' 700 701 ex_stale_low) = [(ex_p1 ''first'', ''tf'')]
   \<and> queue (run_finished ex_blocker ''t0'' 700 701 ex_stale_low) = []
   \<and> alerts_expired (state (run_finished ex_blocker ''t0'' 700 701 ex_stale_low)) = 1
   \<and> ''stale'' \<notin> known_incidents (run_finished ex_blocker ''t0'' 700 701 ex_stale_low)"
  by (simp add: scan_ex_defs ex_defs intake_defs heap_defs heap_drain.simps)

section \<open>Priority order of the queue\<close>

lemma elected_is_least:
  assumes "is_heap h"
    and "find free (filter live (heap_drain h)) = Some e"
    and "q \<in> set h" and "live q" and "free q"
  shows "e \<in> set h \<and> live e \<and> free e \<and> \<not> QueuedAlert_lt q e"
proof -
  note dr = heap_drain_correct [OF assms(1)]
  from dr have s: "set (heap_drain h) = set h"
    by (metis set_mset_mset)
  from dr have "sorted_wrt QueuedAlert_le (filter live (heap_drain h))"
    by (simp add: sorted_wrt_filter)
  moreover have "q \<in> set (filter live (heap_drain h))"
    using assms(3,4) s by simp
  ultimately have "e \<in> set (filter live (heap_drain h)) \<and> free e \<and> QueuedAlert_le e q"
    using assms(2,5) by (intro find_first) simp_all
  with s show ?thesis
    by (simp add: QueuedAlert_le_def)
qed

text \<open>
  Claim C3, as amended. The rank of a priority is 1 for P1, 2 for P2, 3 for P3, 4 for P4
  and 99 for none, and it is the rank every queued alert carries; one queued alert is
  before another when its rank is strictly lower, or the ranks are equal and its
  \<open>enqueued_at\<close> is strictly earlier. Whenever a completion dispatches a queued alert,
  that alert is unexpired with a free service, and no other queued alert that is
  unexpired and has a free service at that election point is before it.
\<close>

theorem queue_priority_order:
  "priority_rank_fn (Some P1) = 1 \<and> priority_rank_fn (Some P2) = 2
   \<and> priority_rank_fn (Some P3) = 3 \<and> priority_rank_fn (Some P4) = 4
   \<and> priority_rank_fn None = 99
   \<and> (QueuedAlert_lt x y \<longleftrightarrow>
        priority_rank x < priority_rank y
        \<or> (priority_rank x = priority_rank y \<and> enqueued_at x < enqueued_at y))
   \<and> (reachable s \<longrightarrow>
        (\<forall>q\<in>set (queue s). priority_rank q = priority_rank_fn (priority (alert q))))
   \<and> (reachable s \<and> (a, tr) \<in> set (running s) \<and> \<not> shutting_down s
        \<and> 0 \<le> max_concurrent s
        \<and> running (run_finished a tr now now2 s) \<noteq> remove1 (a, tr) (running s) \<longrightarrow>
        (\<exists>e\<in>set (queue s).
           running (run_finished a tr now now2 s) =
             remove1 (a, tr) (running s) @ [(alert e, trace_id e)]
           \<and> \<not> expired now s e \<and> service_free (released a tr s) e
           \<and> (\<forall>q\<in>set (queue s).
                 \<not> expired now s q \<and> service_free (released a tr s) q
                 \<longrightarrow> \<not> QueuedAlert_lt q e)))"
proof (intro conjI impI)
  show "QueuedAlert_lt x y \<longleftrightarrow>
        priority_rank x < priority_rank y
        \<or> (priority_rank x = priority_rank y \<and> enqueued_at x < enqueued_at y)"
    by (auto simp: QueuedAlert_lt_def)
next
  assume "reachable s"
  from reachable_queue_inv [OF this]
  show "\<forall>q\<in>set (queue s). priority_rank q = priority_rank_fn (priority (alert q))"
    by (simp add: queue_inv_def)
next
  assume a: "reachable s \<and> (a, tr) \<in> set (running s) \<and> \<not> shutting_down s
        \<and> 0 \<le> max_concurrent s
        \<and> running (run_finished a tr now now2 s) \<noteq> remove1 (a, tr) (running s)"
  let ?m = "released a tr s"
  let ?live = "\<lambda>c. \<not> expired now s c"
  from a have rf: "run_finished a tr now now2 s = dispatch_next now now2 ?m"
    by (simp add: run_finished_released)
  have q: "queue ?m \<noteq> []"
  proof
    assume "queue ?m = []"
    then have "dispatch_next now now2 ?m = ?m" by (simp add: dispatch_next_def)
    with a rf show False by simp
  qed
  from a have cnt: "active_count ?m < max_concurrent ?m"
    by (intro released_count) simp_all
  from dispatch_next_result(4) [OF q cnt, of now now2]
  have run: "running (run_finished a tr now now2 s) =
           remove1 (a, tr) (running s) @
             (case find (service_free ?m) (filter ?live (heap_drain (queue s))) of
                None \<Rightarrow> []
              | Some e \<Rightarrow> [(alert e, trace_id e)])"
    unfolding rf by simp
  with a obtain e where e: "find (service_free ?m) (filter ?live (heap_drain (queue s))) = Some e"
    by (cases "find (service_free ?m) (filter ?live (heap_drain (queue s)))") auto
  from a reachable_queue_inv [of s] have h: "is_heap (queue s)"
    by (simp add: queue_inv_def)
  have least: "\<not> QueuedAlert_lt q e"
    if "q \<in> set (queue s)" "\<not> expired now s q" "service_free ?m q" for q
    using elected_is_least [OF h e that(1)] that(2,3) by simp
  have "sorted_wrt QueuedAlert_le (filter ?live (heap_drain (queue s)))"
    using heap_drain_correct [OF h] by (simp add: sorted_wrt_filter)
  from find_Some_iff [THEN iffD1, OF e]
  have "e \<in> set (filter ?live (heap_drain (queue s)))" and fe: "service_free ?m e"
    by (auto simp del: set_filter)
  then have "e \<in> set (queue s)" and le: "\<not> expired now s e"
    using heap_drain_correct [OF h] by (auto dest: mset_eq_setD)
  with run e fe least
  show "\<exists>e\<in>set (queue s).
           running (run_finished a tr now now2 s) =
             remove1 (a, tr) (running s) @ [(alert e, trace_id e)]
           \<and> \<not> expired now s e \<and> service_free (released a tr s) e
           \<and> (\<forall>q\<in>set (queue s).
                 \<not> expired now s q \<and> service_free (released a tr s) q
                 \<longrightarrow> \<not> QueuedAlert_lt q e)"
    by (intro bexI [of _ e]) auto
qed (simp_all add: priority_rank_fn_def)

text \<open>The two alerts that wait in scenario S4, as queued.\<close>

definition ex_queued_low :: QueuedAlert where
  "ex_queued_low = \<lparr>alert = ex_p4 ''low'', trace_id = ''tl'', enqueued_at = 1,
                     priority_rank = 4\<rparr>"

definition ex_queued_critical :: QueuedAlert where
  "ex_queued_critical = \<lparr>alert = ex_p1 ''critical'', trace_id = ''tc'', enqueued_at = 2,
                          priority_rank = 1\<rparr>"

lemma ex_low_then_critical_queue:
  "queue ex_low_then_critical = [ex_queued_critical, ex_queued_low]"
  by (simp add: scan_ex_defs ex_defs intake_defs heap_defs ex_queued_low_def
      ex_queued_critical_def)

text \<open>
  The theorem at scenario S4: the completion of the blocker dispatches the P1 alert, and
  the P4 alert, which waits unexpired with a free service, is not before it.
\<close>

theorem queue_priority_order_witness:
  "reachable ex_low_then_critical
   \<and> (ex_blocker, ''t0'') \<in> set (running ex_low_then_critical)
   \<and> \<not> shutting_down ex_low_then_critical \<and> 0 \<le> max_concurrent ex_low_then_critical
   \<and> queue ex_low_then_critical = [ex_queued_critical, ex_queued_low]
   \<and> running (run_finished ex_blocker ''t0'' 10 11 ex_low_then_critical)
       = [(alert ex_queued_critical, trace_id ex_queued_critical)]
   \<and> priority_rank ex_queued_critical
       = priority_rank_fn (priority (alert ex_queued_critical))
   \<and> priority_rank ex_queued_low = priority_rank_fn (priority (alert ex_queued_low))
   \<and> \<not> expired 10 ex_low_then_critical ex_queued_low
   \<and> service_free (released ex_blocker ''t0'' ex_low_then_critical) ex_queued_low
   \<and> \<not> QueuedAlert_lt ex_queued_low ex_queued_critical"
proof -
  note f = ex_low_then_critical_facts
  note qu = ex_low_then_critical_queue
  have r: "running ex_low_then_critical = [(ex_blocker, ''t0'')]"
    by (simp add: scan_ex_defs ex_defs intake_defs)
  have run: "running (run_finished ex_blocker ''t0'' 10 11 ex_low_then_critical)
       = [(alert ex_queued_critical, trace_id ex_queued_critical)]"
    by (simp add: ex_low_then_critical_run ex_queued_critical_def)
  have n: "running (run_finished ex_blocker ''t0'' 10 11 ex_low_then_critical)
             \<noteq> remove1 (ex_blocker, ''t0'') (running ex_low_then_critical)"
    by (simp add: r run)
  have lo: "\<not> expired 10 ex_low_then_critical ex_queued_low"
    "service_free (released ex_blocker ''t0'' ex_low_then_critical) ex_queued_low"
    "alert ex_queued_low \<noteq> alert ex_queued_critical"
    by (simp_all add: expired_def service_free_def released_def ex_queued_low_def
        ex_queued_critical_def scan_ex_defs ex_defs intake_defs)
  note T = queue_priority_order [where s = ex_low_then_critical and a = ex_blocker
      and tr = "''t0''" and now = 10 and ?now2.0 = 11]
  from T f(1) have 1: "\<forall>q\<in>set (queue ex_low_then_critical).
         priority_rank q = priority_rank_fn (priority (alert q))"
    by blast
  from T f(1,2,3,5) n
  obtain e where e: "e \<in> set (queue ex_low_then_critical)"
    and re: "running (run_finished ex_blocker ''t0'' 10 11 ex_low_then_critical) =
           remove1 (ex_blocker, ''t0'') (running ex_low_then_critical)
             @ [(alert e, trace_id e)]"
    and le: "\<forall>q\<in>set (queue ex_low_then_critical).
               \<not> expired 10 ex_low_then_critical q
               \<and> service_free (released ex_blocker ''t0'' ex_low_then_critical) q
               \<longrightarrow> \<not> QueuedAlert_lt q e"
    by blast
  from re have "alert e = alert ex_queued_critical"
    by (simp add: r run)
  with e lo(3) have "e = ex_queued_critical"
    by (auto simp: qu)
  with le lo(1,2) have 2: "\<not> QueuedAlert_lt ex_queued_low ex_queued_critical"
    by (simp add: qu)
  from 1 have 3: "priority_rank ex_queued_critical
       = priority_rank_fn (priority (alert ex_queued_critical))"
    "priority_rank ex_queued_low = priority_rank_fn (priority (alert ex_queued_low))"
    by (simp_all add: qu)
  from f(1,2,3,5) qu run 3 lo(1,2) 2 show ?thesis
    by (intro conjI)
qed

text \<open>
  The claim as stated fails when the alert of lower rank has expired. A P1 alert queued
  at time 1 and a P4 alert queued at time 500 wait behind the blocker, which finishes at
  time 700; the services of both are free at that election point. The P1 alert, 699
  seconds old, is discarded and the P4 alert is dispatched: the alert of strictly lower
  rank is not dispatched first (it is never dispatched).
\<close>

theorem queue_priority_order_counterexample:
  "queue ex_stale_critical =
     [\<lparr>alert = ex_p1 ''stale'', trace_id = ''ts'', enqueued_at = 1, priority_rank = 1\<rparr>,
      \<lparr>alert = ex_p4 ''fresh'', trace_id = ''tf'', enqueued_at = 500, priority_rank = 4\<rparr>]
   \<and> active_services (released ex_blocker ''t0'' ex_stale_critical) ''svc-a'' = None
   \<and> active_services (released ex_blocker ''t0'' ex_stale_critical) ''svc-b'' = None
   \<and> running (run_finished ex_blocker ''t0'' 700 701 ex_stale_critical)
       = [(ex_p4 ''fresh'', ''tf'')]
   \<and> queue (run_finished ex_blocker ''t0'' 700 701 ex_stale_critical) = []"
  by (simp add: scan_ex_defs ex_defs intake_defs heap_defs released_def)

section \<open>Deduplication\<close>

text \<open>
  The incident ids the pipeline holds: those of the running alerts, then those of the
  queued ones. In every reachable state no id occurs twice among them and
  \<open>known_incidents\<close> is their set.
\<close>

definition incident_ids :: "AlertIntake \<Rightarrow> string list" where
  "incident_ids s =
     map (\<lambda>r. incident_id (fst r)) (running s) @ map (\<lambda>q. incident_id (alert q)) (queue s)"

definition known_inv :: "AlertIntake \<Rightarrow> bool" where
  "known_inv s \<longleftrightarrow> distinct (incident_ids s) \<and> known_incidents s = set (incident_ids s)"

lemma distinct_split:
  assumes "mset zs = mset xs + mset ys" and "distinct zs"
  shows "distinct xs \<and> set xs = set zs - set ys"
proof -
  from assms(1) have m: "mset zs = mset (xs @ ys)" by simp
  from mset_eq_imp_distinct_iff [OF m] assms(2) have d: "distinct (xs @ ys)" by simp
  from mset_eq_setD [OF m] have "set zs = set xs \<union> set ys" by simp
  with d show ?thesis by auto
qed

lemma known_inv_perm:
  assumes "mset (incident_ids s') = mset zs" and "distinct zs"
    and "known_incidents s' = set zs"
  shows "known_inv s'"
  using mset_eq_imp_distinct_iff [OF assms(1)] mset_eq_setD [OF assms(1)] assms(2,3)
  by (simp add: known_inv_def)

lemma mset_find_remove_first:
  "mset xs = (case find P xs of None \<Rightarrow> {#} | Some e \<Rightarrow> {#e#}) + mset (remove_first P xs)"
  by (induction xs) auto

lemma known_inv_submit:
  assumes "known_inv s" and "is_heap (queue s)"
  shows "known_inv (snd (submit a tr now s))"
proof -
  let ?q = "\<lparr>alert = a, trace_id = tr, enqueued_at = now,
             priority_rank = priority_rank_fn (priority a)\<rparr>"
  from assms(1) have d: "distinct (incident_ids s)"
    and k: "known_incidents s = set (incident_ids s)"
    by (simp_all add: known_inv_def)
  consider (same) "shutting_down s \<or> incident_id a \<in> known_incidents s"
    | (dispatch) "\<not> shutting_down s" "incident_id a \<notin> known_incidents s"
        "active_services s (service_name a) = None \<and> active_count s < max_concurrent s"
    | (queued) "\<not> shutting_down s" "incident_id a \<notin> known_incidents s"
        "\<not> (active_services s (service_name a) = None \<and> active_count s < max_concurrent s)"
    by blast
  then show ?thesis
  proof cases
    case same
    then have "incident_ids (snd (submit a tr now s)) = incident_ids s"
      "known_incidents (snd (submit a tr now s)) = known_incidents s"
      by (auto simp: submit_def incident_ids_def)
    with assms(1) show ?thesis by (simp add: known_inv_def)
  next
    case dispatch
    then have "mset (incident_ids (snd (submit a tr now s)))
                 = mset (incident_id a # incident_ids s)"
      "known_incidents (snd (submit a tr now s)) = set (incident_id a # incident_ids s)"
      using k by (simp_all add: submit_def Let_def dispatch_alert_def start_run_def
          incident_ids_def)
    moreover have "distinct (incident_id a # incident_ids s)"
      using d k dispatch(2) by simp
    ultimately show ?thesis by (intro known_inv_perm)
  next
    case queued
    from heappush_correct [OF assms(2), of ?q]
    have m: "mset (heappush (queue s) ?q) = add_mset ?q (mset (queue s))"
      by simp
    have "mset (map (\<lambda>q. incident_id (alert q)) (heappush (queue s) ?q))
            = add_mset (incident_id a) (mset (map (\<lambda>q. incident_id (alert q)) (queue s)))"
      unfolding mset_map m by simp
    moreover from queued have "snd (submit a tr now s) =
        s\<lparr>known_incidents := insert (incident_id a) (known_incidents s),
          queue := heappush (queue s) ?q,
          state := (state s)\<lparr>alerts_queued := alerts_queued (state s) + 1\<rparr>,
          telemetry := (telemetry s)
            \<lparr>alerts_queued_counter := alerts_queued_counter (telemetry s) + 1,
             intake_queue_depth_updown := intake_queue_depth_updown (telemetry s) + 1\<rparr>\<rparr>"
      by (auto simp: submit_def Let_def)
    ultimately have "mset (incident_ids (snd (submit a tr now s)))
                 = mset (incident_id a # incident_ids s)"
      "known_incidents (snd (submit a tr now s)) = set (incident_id a # incident_ids s)"
      using k by (simp_all add: incident_ids_def)
    moreover have "distinct (incident_id a # incident_ids s)"
      using d k queued(2) by simp
    ultimately show ?thesis by (intro known_inv_perm)
  qed
qed

lemma known_inv_released:
  assumes "known_inv s" and "(a, tr) \<in> set (running s)"
  shows "known_inv (released a tr s)"
proof -
  from assms(1) have d: "distinct (incident_ids s)"
    and k: "known_incidents s = set (incident_ids s)"
    by (simp_all add: known_inv_def)
  from assms(2) have "mset (running s) = add_mset (a, tr) (mset (remove1 (a, tr) (running s)))"
    by simp
  from arg_cong [OF this, of "image_mset (\<lambda>r. incident_id (fst r))"]
  have "mset (incident_ids s) = mset (incident_ids (released a tr s)) + mset [incident_id a]"
    by (simp add: incident_ids_def)
  from distinct_split [OF this d] k show ?thesis
    by (simp add: known_inv_def)
qed

lemma known_inv_dispatch_next:
  assumes "known_inv s" and "is_heap (queue s)"
  shows "known_inv (dispatch_next now now2 s)"
proof (cases "queue s = [] \<or> active_count s \<ge> max_concurrent s")
  case True
  then have "dispatch_next now now2 s = s" by (auto simp: dispatch_next_def)
  with assms(1) show ?thesis by simp
next
  case False
  then have ne: "queue s \<noteq> []" and lt: "active_count s < max_concurrent s" by auto
  note res = dispatch_next_result [OF ne lt, of now now2]
  let ?D = "heap_drain (queue s)"
  let ?X = "filter (expired now s) ?D"
  let ?L = "filter (\<lambda>c. \<not> expired now s c) ?D"
  let ?g = "\<lambda>q. incident_id (alert q)"
  let ?s' = "dispatch_next now now2 s"
  from assms(1) have d: "distinct (incident_ids s)"
    and k: "known_incidents s = set (incident_ids s)"
    by (simp_all add: known_inv_def)
  from heap_drain_correct [OF assms(2)] have mD: "mset ?D = mset (queue s)" by simp
  have part: "mset ?D = mset ?X + mset ?L"
    by (simp add: mset_filter)
  have q': "mset (queue ?s') = mset (remove_first (service_free s) ?L)"
    unfolding res(5) using heapify_correct by simp
  have "mset (map (\<lambda>r. incident_id (fst r)) (running ?s')) + mset (map ?g (queue ?s'))
          = mset (map (\<lambda>r. incident_id (fst r)) (running s)) + mset (map ?g ?L)"
  proof (cases "find (service_free s) ?L")
    case None
    with mset_find_remove_first [of ?L "service_free s"] q' res(4) show ?thesis
      by (simp add: mset_map)
  next
    case (Some e)
    with mset_find_remove_first [of ?L "service_free s"]
    have "mset ?L = add_mset e (mset (queue ?s'))" using q' by simp
    from arg_cong [OF this, of "image_mset ?g"] Some res(4) show ?thesis
      by (simp add: mset_map)
  qed
  moreover have "mset (map ?g (queue s)) = mset (map ?g ?X) + mset (map ?g ?L)"
    using arg_cong [OF trans [OF mD [symmetric] part], of "image_mset ?g"]
    by (simp only: mset_map image_mset_union)
  ultimately have "mset (incident_ids s) = mset (incident_ids ?s') + mset (map ?g ?X)"
    by (simp add: incident_ids_def)
  from distinct_split [OF this d] res(1) k show ?thesis
    by (simp add: known_inv_def)
qed

lemma known_inv_step:
  assumes "step s s'" and "known_inv s" and "queue_inv s"
  shows "known_inv s'"
  using assms
proof (induction rule: step.induct)
  case (st_submit s a tr now)
  then show ?case by (simp add: known_inv_submit queue_inv_def)
next
  case (st_finish a tr s now now2)
  from st_finish(2,1) have r: "known_inv (released a tr s)"
    by (rule known_inv_released)
  from st_finish(3) have "is_heap (queue (released a tr s))"
    by (simp add: queue_inv_def)
  from known_inv_dispatch_next [OF r this] r show ?case
    by (simp add: run_finished_released)
next
  case (st_process s st tel)
  then show ?case by (simp add: known_inv_def incident_ids_def)
next
  case (st_shutdown s)
  from st_shutdown(1) have d: "distinct (incident_ids s)"
    and k: "known_incidents s = set (incident_ids s)"
    by (simp_all add: known_inv_def)
  have "mset (incident_ids s) = mset (incident_ids (shutdown s))
          + mset (map (\<lambda>q. incident_id (alert q)) (queue s))"
    by (simp add: incident_ids_def shutdown_def Let_def shutdown_discard_frame)
  from distinct_split [OF this d] k show ?case
    by (simp add: known_inv_def shutdown_def Let_def shutdown_discard_known)
qed

lemma reachable_known_inv: "reachable s \<Longrightarrow> known_inv s"
proof (induction rule: reachable.induct)
  case (r_init st tel maxc ttl)
  show ?case
    by (simp add: known_inv_def incident_ids_def AlertIntake_init_def)
next
  case (r_step s s')
  from r_step(2,3) reachable_queue_inv [OF r_step(1)] show ?case
    by (rule known_inv_step)
qed

text \<open>
  A run stays in \<open>running\<close> until its own wrapper finishes, whatever else happens, and
  the concurrency limit never changes.
\<close>

lemma running_dispatch_next: "set (running s) \<subseteq> set (running (dispatch_next now now2 s))"
proof (cases "queue s = [] \<or> active_count s \<ge> max_concurrent s")
  case True
  then have "dispatch_next now now2 s = s" by (auto simp: dispatch_next_def)
  then show ?thesis by simp
next
  case False
  then have "queue s \<noteq> []" and "active_count s < max_concurrent s" by auto
  from dispatch_next_result(4) [OF this, of now now2] show ?thesis by simp
qed

lemma running_until_finished:
  assumes "step s s'" and "(a, tr) \<in> set (running s)"
  shows "(a, tr) \<in> set (running s') \<or> (\<exists>now now2. s' = run_finished a tr now now2 s)"
  using assms
proof (induction rule: step.induct)
  case (st_submit s b tr' now)
  then show ?case
    by (auto simp: submit_def Let_def dispatch_alert_def start_run_def)
next
  case (st_finish b tr' s now now2)
  show ?case
  proof (cases "(b, tr') = (a, tr)")
    case True
    then show ?thesis by auto
  next
    case False
    then have ne: "(a, tr) \<noteq> (b, tr')" by blast
    have "(a, tr) \<in> set (remove1 (b, tr') (running s))"
      using in_set_remove1 [OF ne, of "running s"] st_finish(2) by blast
    then have "(a, tr) \<in> set (running (released b tr' s))"
      by (simp only: released_fields)
    with running_dispatch_next [of "released b tr' s" now now2] show ?thesis
      by (auto simp: run_finished_released)
  qed
next
  case (st_process s st tel)
  then show ?case by simp
next
  case (st_shutdown s)
  then show ?case by (simp add: shutdown_def Let_def shutdown_discard_frame)
qed

lemma max_concurrent_dispatch_next [simp]:
  "max_concurrent (dispatch_next now now2 s) = max_concurrent s"
proof -
  obtain s1 e r where sc: "dispatch_scan now s None [] = (s1, e, r)"
    by (cases "dispatch_scan now s None []")
  from dispatch_scan_frame [OF sc] show ?thesis
    by (simp add: dispatch_next_def sc Let_def dispatch_alert_def start_run_def
        split: option.splits)
qed

lemma step_max_concurrent: "step s s' \<Longrightarrow> max_concurrent s' = max_concurrent s"
  by (induction rule: step.induct)
     (auto simp: submit_def Let_def dispatch_alert_def start_run_def run_finished_released
        shutdown_def shutdown_discard_frame)

lemma steps_max_concurrent: "step\<^sup>*\<^sup>* s s' \<Longrightarrow> max_concurrent s' = max_concurrent s"
  by (induction rule: rtranclp_induct) (auto dest: step_max_concurrent)

lemma steps_reachable: "step\<^sup>*\<^sup>* s s' \<Longrightarrow> reachable s \<Longrightarrow> reachable s'"
  by (induction rule: rtranclp_induct) (auto intro: r_step)

lemma submit_known:
  "\<not> shutting_down s \<Longrightarrow> incident_id a \<in> known_incidents s \<Longrightarrow>
   submit a tr now s =
     (''deduplicated'',
      s\<lparr>state := (state s)\<lparr>alerts_deduplicated := alerts_deduplicated (state s) + 1\<rparr>,
        telemetry := (telemetry s)\<lparr>alerts_deduplicated_counter :=
                       alerts_deduplicated_counter (telemetry s) + 1\<rparr>\<rparr>)"
  by (simp add: submit_def)

lemma submit_all_known:
  "\<not> shutting_down s \<Longrightarrow> incident_id a \<in> known_incidents s \<Longrightarrow>
   fst (submit_all a xs s) = replicate (length xs) ''deduplicated''
   \<and> known_incidents (snd (submit_all a xs s)) = known_incidents s
   \<and> active_services (snd (submit_all a xs s)) = active_services s
   \<and> active_count (snd (submit_all a xs s)) = active_count s
   \<and> max_concurrent (snd (submit_all a xs s)) = max_concurrent s
   \<and> queue (snd (submit_all a xs s)) = queue s
   \<and> running (snd (submit_all a xs s)) = running s
   \<and> shutting_down (snd (submit_all a xs s)) = shutting_down s
   \<and> alerts_deduplicated (state (snd (submit_all a xs s))) =
       alerts_deduplicated (state s) + int (length xs)"
proof (induction xs arbitrary: s)
  case Nil
  then show ?case by simp
next
  case (Cons x xs)
  obtain tr now where x: "x = (tr, now)" by (cases x)
  let ?s1 = "s\<lparr>state := (state s)\<lparr>alerts_deduplicated := alerts_deduplicated (state s) + 1\<rparr>,
        telemetry := (telemetry s)\<lparr>alerts_deduplicated_counter :=
                       alerts_deduplicated_counter (telemetry s) + 1\<rparr>\<rparr>"
  have s1: "submit a tr now s = (''deduplicated'', ?s1)"
    using Cons.prems by (rule submit_known)
  have "\<not> shutting_down ?s1" "incident_id a \<in> known_incidents ?s1"
    using Cons.prems by simp_all
  from Cons.IH [OF this] show ?case
    by (cases "submit_all a xs ?s1") (simp add: x s1)
qed

lemma submit_dispatched:
  assumes "submit a tr now s = (''dispatched'', s1)"
  shows "\<not> shutting_down s \<and> incident_id a \<notin> known_incidents s
         \<and> active_services s (service_name a) = None
         \<and> active_count s < max_concurrent s
         \<and> s1 = dispatch_alert a tr now
                  (s\<lparr>known_incidents := insert (incident_id a) (known_incidents s)\<rparr>)"
  using assms by (auto simp: submit_def Let_def split: if_splits)

text \<open>
  Claim C1, as amended. In every state the pipeline can reach, while it is not shutting
  down: \<open>known_incidents\<close> is exactly the set of the incident ids of the running and of the
  queued alerts; if the alert's incident id is in it, submit returns \<open>deduplicated\<close>,
  increments the \<open>alerts_deduplicated\<close> counter (and its instrument) and leaves every
  other field of the intake as it was. Consequently, when a submit returns \<open>dispatched\<close>
  the run is registered as running, and at any later point of any sequence of events
  (submits, completions of runs, processing, shutdown) at which that run is still running
  and the pipeline is not shutting down, every one of any number of further submits of the
  same alert returns \<open>deduplicated\<close>; and when nothing is waiting in the queue at that
  point, a fresh submit of the same incident after the run has completed returns
  \<open>dispatched\<close> again.
\<close>

theorem submit_deduplicates:
  assumes "reachable s" and "\<not> shutting_down s"
  shows "known_incidents s =
           (\<lambda>r. incident_id (fst r)) ` set (running s)
             \<union> (\<lambda>q. incident_id (alert q)) ` set (queue s)
         \<and> (incident_id a \<in> known_incidents s \<longrightarrow>
              submit a tr now s =
                (''deduplicated'',
                 s\<lparr>state := (state s)\<lparr>alerts_deduplicated :=
                               alerts_deduplicated (state s) + 1\<rparr>,
                   telemetry := (telemetry s)\<lparr>alerts_deduplicated_counter :=
                               alerts_deduplicated_counter (telemetry s) + 1\<rparr>\<rparr>))
         \<and> (submit a tr now s = (''dispatched'', s1) \<longrightarrow>
              (a, tr) \<in> set (running s1)
              \<and> (step\<^sup>*\<^sup>* s1 s2 \<and> (a, tr) \<in> set (running s2) \<and> \<not> shutting_down s2 \<longrightarrow>
                   fst (submit_all a xs s2) = replicate (length xs) ''deduplicated''
                   \<and> (queue s2 = [] \<longrightarrow>
                        fst (submit a tr' now' (run_finished a tr t1 t2
                               (snd (submit_all a xs s2))))
                          = ''dispatched'')))"
proof (intro conjI impI)
  from reachable_known_inv [OF assms(1)]
  show "known_incidents s =
           (\<lambda>r. incident_id (fst r)) ` set (running s)
             \<union> (\<lambda>q. incident_id (alert q)) ` set (queue s)"
    by (simp add: known_inv_def incident_ids_def)
next
  assume "incident_id a \<in> known_incidents s"
  with assms(2) show "submit a tr now s =
                (''deduplicated'',
                 s\<lparr>state := (state s)\<lparr>alerts_deduplicated :=
                               alerts_deduplicated (state s) + 1\<rparr>,
                   telemetry := (telemetry s)\<lparr>alerts_deduplicated_counter :=
                               alerts_deduplicated_counter (telemetry s) + 1\<rparr>\<rparr>)"
    by (rule submit_known)
next
  assume d: "submit a tr now s = (''dispatched'', s1)"
  note f = submit_dispatched [OF d]
  from f show "(a, tr) \<in> set (running s1)"
    by (simp add: dispatch_alert_def start_run_def)
  assume "step\<^sup>*\<^sup>* s1 s2 \<and> (a, tr) \<in> set (running s2) \<and> \<not> shutting_down s2"
  then have st: "step\<^sup>*\<^sup>* s1 s2" and run: "(a, tr) \<in> set (running s2)"
    and nsd: "\<not> shutting_down s2"
    by simp_all
  have "step s s1"
    using st_submit [of s a tr now] d by simp
  with assms(1) have "reachable s1" by (rule r_step)
  with st have r2: "reachable s2" by (rule steps_reachable)
  from run have "incident_id (fst (a, tr)) \<in> (\<lambda>r. incident_id (fst r)) ` set (running s2)"
    by (rule imageI)
  moreover from reachable_known_inv [OF r2]
  have "known_incidents s2 = set (incident_ids s2)"
    by (simp add: known_inv_def)
  ultimately have k2: "incident_id a \<in> known_incidents s2"
    by (simp add: incident_ids_def)
  note all = submit_all_known [OF nsd k2, of xs]
  from all show "fst (submit_all a xs s2) = replicate (length xs) ''deduplicated''"
    by simp
  assume q: "queue s2 = []"
  let ?s3 = "snd (submit_all a xs s2)"
  let ?s4 = "run_finished a tr t1 t2 ?s3"
  from reachable_intake_inv [OF assms(1)] have "0 \<le> active_count s"
    by (simp add: intake_inv_def)
  with f have "0 < max_concurrent s" by simp
  moreover have "max_concurrent s1 = max_concurrent s"
    using f by (simp add: dispatch_alert_def start_run_def)
  ultimately have m2: "0 < max_concurrent s2"
    using steps_max_concurrent [OF st] by simp
  from reachable_intake_inv [OF r2] m2 have c2: "active_count s2 \<le> max_concurrent s2"
    by (simp add: intake_inv_def)
  have s3: "queue ?s3 = []" "\<not> shutting_down ?s3"
    "active_count ?s3 = active_count s2" "max_concurrent ?s3 = max_concurrent s2"
    using all q nsd by simp_all
  have "dispatch_next t1 t2 (released a tr ?s3) = released a tr ?s3"
    by (simp add: dispatch_next_def s3(1))
  with s3(2) have e: "?s4 = released a tr ?s3"
    by (simp add: run_finished_released)
  have s4: "\<not> shutting_down ?s4" "incident_id a \<notin> known_incidents ?s4"
    "active_services ?s4 (service_name a) = None"
    "active_count ?s4 < max_concurrent ?s4"
    unfolding e using s3 c2 by (simp_all add: released_def)
  then show "fst (submit a tr' now' ?s4) = ''dispatched''"
    by (simp add: submit_def Let_def)
qed

text \<open>
  The theorem at the example: \<open>inc-1\<close> is submitted to the empty pipeline and
  dispatched; \<open>inc-2\<close> is submitted and queued while \<open>inc-1\<close> is running; further
  submits of either are deduplicated; and when \<open>inc-1\<close> completes with nothing waiting,
  a fresh submit of it is dispatched.
\<close>

theorem submit_deduplicates_witness:
  "reachable ex_s0 \<and> \<not> shutting_down ex_s0
   \<and> submit ex_inc1 ''t1'' 0 ex_s0 = (''dispatched'', ex_s1)
   \<and> step\<^sup>*\<^sup>* ex_s1 ex_s2 \<and> (ex_inc1, ''t1'') \<in> set (running ex_s2)
   \<and> \<not> shutting_down ex_s2
   \<and> fst (submit_all ex_inc1 [(''t3'', 2), (''t4'', 3)] ex_s2)
       = [''deduplicated'', ''deduplicated'']
   \<and> step\<^sup>*\<^sup>* ex_s1 ex_s1 \<and> (ex_inc1, ''t1'') \<in> set (running ex_s1)
   \<and> \<not> shutting_down ex_s1 \<and> queue ex_s1 = []
   \<and> fst (submit ex_inc1 ''t6'' 6
            (run_finished ex_inc1 ''t1'' 4 5
               (snd (submit_all ex_inc1 [(''t3'', 2), (''t4'', 3)] ex_s1))))
       = ''dispatched''
   \<and> reachable ex_s2
   \<and> known_incidents ex_s2 = {''inc-1'', ''inc-2''}
   \<and> incident_id ex_inc2 \<in> known_incidents ex_s2
   \<and> fst (submit ex_inc2 ''t7'' 7 ex_s2) = ''deduplicated''"
proof -
  have r0: "reachable ex_s0"
    unfolding ex_s0_def by (rule r_init)
  have n0: "\<not> shutting_down ex_s0"
    by (simp add: ex_defs)
  have d: "submit ex_inc1 ''t1'' 0 ex_s0 = (''dispatched'', ex_s1)"
    unfolding ex_s1_def by (simp add: ex_defs intake_defs)
  have s01: "step ex_s0 ex_s1"
    unfolding ex_s1_def by (rule st_submit)
  have s12: "step ex_s1 ex_s2"
    unfolding ex_s2_def by (rule st_submit)
  from s12 have st2: "step\<^sup>*\<^sup>* ex_s1 ex_s2" by (rule r_into_rtranclp)
  have st1: "step\<^sup>*\<^sup>* ex_s1 ex_s1" by (rule rtranclp.rtrancl_refl)
  have r2: "reachable ex_s2"
    using r0 s01 s12 by (blast intro: r_step)
  have run2: "(ex_inc1, ''t1'') \<in> set (running ex_s2)" and n2: "\<not> shutting_down ex_s2"
    and k2: "incident_id ex_inc2 \<in> known_incidents ex_s2"
    by (simp_all add: ex_defs intake_defs heap_defs)
  have run1: "(ex_inc1, ''t1'') \<in> set (running ex_s1)" and n1: "\<not> shutting_down ex_s1"
    and q1: "queue ex_s1 = []"
    by (simp_all add: ex_defs intake_defs)
  have ids: "(\<lambda>r. incident_id (fst r)) ` set (running ex_s2)
             \<union> (\<lambda>q. incident_id (alert q)) ` set (queue ex_s2) = {''inc-1'', ''inc-2''}"
    by (auto simp: ex_defs intake_defs heap_defs)
  note A = submit_deduplicates [OF r0 n0, where a = ex_inc1 and tr = "''t1''" and now = 0
      and ?s1.0 = ex_s1 and ?s2.0 = ex_s2 and xs = "[(''t3'', 2), (''t4'', 3)]",
      THEN conjunct2, THEN conjunct2, THEN mp, OF d, THEN conjunct2, THEN mp,
      OF conjI [OF st2 conjI [OF run2 n2]], THEN conjunct1]
  note B = submit_deduplicates [OF r0 n0, where a = ex_inc1 and tr = "''t1''" and now = 0
      and ?s1.0 = ex_s1 and ?s2.0 = ex_s1 and xs = "[(''t3'', 2), (''t4'', 3)]"
      and tr' = "''t6''" and now' = 6 and ?t1.0 = 4 and ?t2.0 = 5,
      THEN conjunct2, THEN conjunct2, THEN mp, OF d, THEN conjunct2, THEN mp,
      OF conjI [OF st1 conjI [OF run1 n1]], THEN conjunct2, THEN mp, OF q1]
  note C = submit_deduplicates [OF r2 n2, where a = ex_inc2 and tr = "''t7''" and now = 7]
  from C [THEN conjunct1] have 1: "known_incidents ex_s2 = {''inc-1'', ''inc-2''}"
    unfolding ids .
  from C [THEN conjunct2, THEN conjunct1, THEN mp, OF k2]
  have 2: "fst (submit ex_inc2 ''t7'' 7 ex_s2) = ''deduplicated''"
    by simp
  from A have 3: "fst (submit_all ex_inc1 [(''t3'', 2), (''t4'', 3)] ex_s2)
       = [''deduplicated'', ''deduplicated'']"
    by simp
  from r0 n0 d st2 run2 n2 3 st1 run1 n1 q1 B r2 1 k2 2 show ?thesis
    by (intro conjI)
qed

text \<open>
  The claim as stated fails twice in the example run. After the run of \<open>inc-1\<close> has
  completed, the scan has elected the waiting \<open>inc-2\<close>, which takes the only slot, so a
  fresh submit of \<open>inc-1\<close> is queued, not dispatched. And after shutdown the running
  \<open>inc-2\<close> is still in \<open>known_incidents\<close>, yet its re-submission is rejected, not
  deduplicated.
\<close>

theorem submit_deduplicates_counterexample:
  "fst (submit ex_inc1 ''t1'' 0 ex_s0) = ''dispatched''
   \<and> ex_s3 = run_finished ex_inc1 ''t1'' 2 3 (snd (submit ex_inc2 ''t2'' 1
                (snd (submit ex_inc1 ''t1'' 0 ex_s0))))
   \<and> fst (submit ex_inc1 ''t4'' 4 ex_s3) = ''queued''
   \<and> ex_s4 = shutdown ex_s3
   \<and> incident_id ex_inc2 \<in> known_incidents ex_s4
   \<and> fst (submit ex_inc2 ''t5'' 5 ex_s4) = ''rejected''"
  by (simp add: ex_defs intake_defs heap_defs)


section \<open>The agent loop (agent.py)\<close>

text \<open>
  The configuration fields the modelled code reads (config.py). The loader rejects
  negative token budgets and a \<^verbatim>\<open>MAX_CONCURRENT_ALERTS\<close> below 1.
\<close>

record Config =
  llm_model :: string
  llm_model_escalation :: string
  llm_escalation_turn :: int
  max_tokens_per_incident :: int
  max_tokens_per_hour :: int
  pagerduty_webhook_secret :: string
  pagerduty_api_token :: string
  ops_auth_token :: string
  incidents_dir :: string

definition MAX_TURNS :: nat where
  "MAX_TURNS = 20"

definition MAX_DURATION_SECONDS :: real where
  "MAX_DURATION_SECONDS = 300"

text \<open>
  The summary of a run is a formatted string in the source; the model keeps which of the
  five messages it is, with the values formatted into it.
\<close>

datatype Summary =
    NoSummary
  | DurationLimitExceeded real int
  | TokenBudgetExceeded int int int
  | FinalText string
  | EmptyResponse
  | MaxTurnsReached

text \<open>The estimated cost (a float) is left out of the result.\<close>

record AgentResult =
  summary :: Summary
  turns :: int
  input_tokens :: int
  output_tokens :: int
  models_used :: "string list"
  tool_calls_made :: "string list"

definition AgentResult_init :: AgentResult where
  "AgentResult_init = \<lparr>summary = NoSummary, turns = 0, input_tokens = 0, output_tokens = 0,
                         models_used = [], tool_calls_made = []\<rparr>"

record ToolCall =
  tc_id :: string
  tc_name :: string
  tc_arguments :: string

text \<open>
  A chat completion: the usage block if present (prompt and completion tokens), the tool
  calls of the first choice and its text content (empty when absent).
\<close>

record LLMResponse =
  usage :: "(int \<times> int) option"
  tool_calls :: "ToolCall list"
  content :: string

datatype Message =
    SystemMessage string
  | UserMessage string
  | AssistantMessage LLMResponse
  | ToolMessage string string

datatype PyExc = LLMError | HTTPError | TypeError | JSONDecodeError | OSError

text \<open>
  The world a run talks to: \<open>elapsed turn\<close> is \<^verbatim>\<open>time.time() - start_time\<close> as read at
  the start of that turn; \<open>llm turn model messages\<close> is the outcome of the completion call
  of that turn (an exception or a response); \<open>execute messages name arguments\<close> is the
  string the tool executor returns for a tool call, given the conversation so far.
\<close>

record AgentEnv =
  elapsed :: "nat \<Rightarrow> real"
  llm :: "nat \<Rightarrow> string \<Rightarrow> Message list \<Rightarrow> PyExc + LLMResponse"
  execute :: "Message list \<Rightarrow> string \<Rightarrow> string \<Rightarrow> string"

record LoopState =
  result :: AgentResult
  messages :: "Message list"
  current_model :: string
  escalated_model :: bool

text \<open>The inner loop over the tool calls of one turn, in the order emitted.\<close>

fun run_tool_calls :: "AgentEnv \<Rightarrow> ToolCall list \<Rightarrow> LoopState \<Rightarrow> LoopState" where
  "run_tool_calls env [] st = st"
| "run_tool_calls env (tool_call # rest) st =
     run_tool_calls env rest
       (st\<lparr>result := (result st)\<lparr>tool_calls_made :=
                         tool_calls_made (result st) @ [tc_name tool_call]\<rparr>,
           messages := messages st @
             [ToolMessage (tc_id tool_call)
                (execute env (messages st) (tc_name tool_call) (tc_arguments tool_call))]\<rparr>)"

text \<open>The token accounting after a completion (\<^verbatim>\<open>if response.usage\<close>).\<close>

definition track_usage :: "string \<Rightarrow> LLMResponse \<Rightarrow> AgentResult \<Rightarrow> AgentResult" where
  "track_usage model response r =
     (case usage response of
        None \<Rightarrow> r
      | Some (turn_in, turn_out) \<Rightarrow>
          r\<lparr>input_tokens := input_tokens r + turn_in,
            output_tokens := output_tokens r + turn_out,
            models_used := (if model \<in> set (models_used r) then models_used r
                            else models_used r @ [model])\<rparr>)"

text \<open>
  \<^verbatim>\<open>for turn in range(MAX_TURNS)\<close> with its \<^verbatim>\<open>else\<close> clause; an exception of the
  completion call leaves the function (\<open>Inl\<close>).
\<close>

function agent_loop ::
  "Config \<Rightarrow> AgentEnv \<Rightarrow> nat \<Rightarrow> LoopState \<Rightarrow> PyExc + AgentResult" where
  "agent_loop config env turn st =
     (if turn < MAX_TURNS then
        (let r1 = (result st)\<lparr>turns := int turn + 1\<rparr>;
             escalate = (\<not> escalated_model st \<and> llm_model_escalation config \<noteq> []
                         \<and> int turn \<ge> llm_escalation_turn config);
             model = (if escalate then llm_model_escalation config else current_model st);
             escalated = (escalate \<or> escalated_model st);
             tokens_used = input_tokens r1 + output_tokens r1
         in if elapsed env turn > MAX_DURATION_SECONDS then
              Inr (r1\<lparr>summary := DurationLimitExceeded (elapsed env turn) (turns r1)\<rparr>)
            else if max_tokens_per_incident config > 0
                    \<and> tokens_used \<ge> max_tokens_per_incident config then
              Inr (r1\<lparr>summary := TokenBudgetExceeded tokens_used
                                   (max_tokens_per_incident config) (turns r1)\<rparr>)
            else
              (case llm env turn model (messages st) of
                 Inl e \<Rightarrow> Inl e
               | Inr response \<Rightarrow>
                   (let r2 = track_usage model response r1 in
                    if tool_calls response \<noteq> [] then
                      agent_loop config env (Suc turn)
                        (run_tool_calls env (tool_calls response)
                           \<lparr>result = r2,
                            messages = messages st @ [AssistantMessage response],
                            current_model = model, escalated_model = escalated\<rparr>)
                    else if content response \<noteq> [] then
                      Inr (r2\<lparr>summary := FinalText (content response)\<rparr>)
                    else Inr (r2\<lparr>summary := EmptyResponse\<rparr>))))
      else Inr ((result st)\<lparr>summary := MaxTurnsReached\<rparr>))"
  by pat_completeness auto
termination
  by (relation "measure (\<lambda>(config, env, turn, st). MAX_TURNS - turn)") auto

declare agent_loop.simps [simp del]

definition run_agent ::
  "Config \<Rightarrow> AgentEnv \<Rightarrow> string \<Rightarrow> string \<Rightarrow> PyExc + AgentResult" where
  "run_agent config env system_prompt user_message =
     agent_loop config env 0
       \<lparr>result = AgentResult_init,
        messages = [SystemMessage system_prompt, UserMessage user_message],
        current_model = llm_model config, escalated_model = False\<rparr>"

text \<open>Example worlds for the agent loop.\<close>

definition ex_config :: Config where
  "ex_config = \<lparr>llm_model = ''gpt-4o-mini'', llm_model_escalation = ''gpt-4o'',
                 llm_escalation_turn = 5, max_tokens_per_incident = 1000,
                 max_tokens_per_hour = 1000, pagerduty_webhook_secret = ''s3cret'',
                 pagerduty_api_token = ''pd'', ops_auth_token = ''ops-token'',
                 incidents_dir = ''/app/incidents''\<rparr>"

text \<open>The model answers with a final text at once, 300 seconds into the run.\<close>

definition ex_env_300 :: AgentEnv where
  "ex_env_300 = \<lparr>elapsed = (\<lambda>turn. 300),
                  llm = (\<lambda>turn model msgs.
                           Inr \<lparr>usage = None, tool_calls = [], content = ''resolved''\<rparr>),
                  execute = (\<lambda>msgs name args. ''{}'')\<rparr>"

text \<open>
  The first turn uses 1100 tokens and calls a tool; the second turn starts 301 seconds
  into the run.
\<close>

definition ex_env_slow :: AgentEnv where
  "ex_env_slow = \<lparr>elapsed = (\<lambda>turn. if turn = 0 then 0 else 301),
                   llm = (\<lambda>turn model msgs.
                            Inr \<lparr>usage = Some (600, 500),
                                 tool_calls = [\<lparr>tc_id = ''call-1'', tc_name = ''call_ops_endpoint'',
                                                tc_arguments = ''{}''\<rparr>],
                                 content = []\<rparr>),
                   execute = (\<lambda>msgs name args. ''{}'')\<rparr>"

text \<open>The same, but every turn starts 10 seconds into the run.\<close>

definition ex_env_fast :: AgentEnv where
  "ex_env_fast = ex_env_slow\<lparr>elapsed := (\<lambda>turn. 10)\<rparr>"

lemmas agent_defs =
  run_agent_def agent_loop.simps track_usage_def AgentResult_init_def MAX_TURNS_def
  MAX_DURATION_SECONDS_def Let_def ex_config_def ex_env_300_def ex_env_slow_def
  ex_env_fast_def

section \<open>Limits of an agent run\<close>

lemma run_tool_calls_turns [simp]:
  "turns (result (run_tool_calls env tcs st)) = turns (result st)"
  by (induction tcs arbitrary: st) simp_all

lemma track_usage_turns [simp]: "turns (track_usage model response r) = turns r"
  by (simp add: track_usage_def split: option.splits)

lemma agent_loop_turns:
  "agent_loop config env turn st = Inr r \<Longrightarrow> turn < MAX_TURNS \<Longrightarrow>
   int turn < turns r \<and> turns r \<le> int MAX_TURNS"
proof (induction config env turn st rule: agent_loop.induct)
  case (1 config env turn st)
  show ?case
  proof (cases "Suc turn < MAX_TURNS")
    case True
    from "1.prems" "1.IH" True show ?thesis
      by (subst (asm) agent_loop.simps)
         (fastforce simp: Let_def split: if_splits sum.splits)
  next
    case False
    with "1.prems"(2) have last: "agent_loop config env (Suc turn) st' =
        Inr ((result st')\<lparr>summary := MaxTurnsReached\<rparr>)" for st'
      by (subst agent_loop.simps) simp
    from "1.prems" show ?thesis
      by (subst (asm) agent_loop.simps)
         (auto simp: Let_def last split: if_splits sum.splits)
  qed
qed

lemma agent_loop_raises:
  "agent_loop config env turn st = Inl e \<Longrightarrow>
   \<exists>t<MAX_TURNS. \<exists>model msgs. llm env t model msgs = Inl e"
proof (induction config env turn st rule: agent_loop.induct)
  case (1 config env turn st)
  from "1.prems" "1.IH" show ?case
    by (subst (asm) agent_loop.simps)
       (fastforce simp: Let_def split: if_splits sum.splits)
qed

text \<open>
  Claim C6, as amended. \<open>MAX_TURNS\<close> is 20 and \<open>MAX_DURATION_SECONDS\<close> is 300. Every run
  ends: it returns a result after at least one and at most 20 turns, or it raises the
  exception of a completion call made in one of the first 20 turns. At the start of any
  turn, if the elapsed time is strictly greater than 300 seconds the run ends there with
  the duration-limit summary; otherwise, if the per-incident budget is positive and the
  tokens used so far have reached it, the run ends there with the budget-exceeded summary.
\<close>

theorem agent_run_limits:
  "MAX_TURNS = 20 \<and> MAX_DURATION_SECONDS = 300
   \<and> (case run_agent config env system_prompt user_message of
         Inr r \<Rightarrow> 1 \<le> turns r \<and> turns r \<le> 20
       | Inl e \<Rightarrow> \<exists>t<20. \<exists>model msgs. llm env t model msgs = Inl e)
   \<and> (turn < MAX_TURNS \<and> elapsed env turn > MAX_DURATION_SECONDS \<longrightarrow>
         agent_loop config env turn st =
           Inr ((result st)\<lparr>turns := int turn + 1,
                  summary := DurationLimitExceeded (elapsed env turn) (int turn + 1)\<rparr>))
   \<and> (turn < MAX_TURNS \<and> \<not> elapsed env turn > MAX_DURATION_SECONDS
        \<and> max_tokens_per_incident config > 0
        \<and> input_tokens (result st) + output_tokens (result st)
             \<ge> max_tokens_per_incident config \<longrightarrow>
         agent_loop config env turn st =
           Inr ((result st)\<lparr>turns := int turn + 1,
                  summary := TokenBudgetExceeded
                    (input_tokens (result st) + output_tokens (result st))
                    (max_tokens_per_incident config) (int turn + 1)\<rparr>))"
proof -
  have total: "case run_agent config env system_prompt user_message of
         Inr r \<Rightarrow> 1 \<le> turns r \<and> turns r \<le> 20
       | Inl e \<Rightarrow> \<exists>t<20. \<exists>model msgs. llm env t model msgs = Inl e"
  proof (cases "run_agent config env system_prompt user_message")
    case (Inl e)
    from agent_loop_raises [OF Inl [unfolded run_agent_def]] Inl show ?thesis
      by (simp add: MAX_TURNS_def)
  next
    case (Inr r)
    from agent_loop_turns [OF Inr [unfolded run_agent_def]] Inr show ?thesis
      by (simp add: MAX_TURNS_def)
  qed
  have duration: "agent_loop config env turn st =
           Inr ((result st)\<lparr>turns := int turn + 1,
                  summary := DurationLimitExceeded (elapsed env turn) (int turn + 1)\<rparr>)"
    if "turn < MAX_TURNS" "elapsed env turn > MAX_DURATION_SECONDS"
    using that by (subst agent_loop.simps) (simp add: Let_def)
  have budget: "agent_loop config env turn st =
           Inr ((result st)\<lparr>turns := int turn + 1,
                  summary := TokenBudgetExceeded
                    (input_tokens (result st) + output_tokens (result st))
                    (max_tokens_per_incident config) (int turn + 1)\<rparr>)"
    if "turn < MAX_TURNS" "\<not> elapsed env turn > MAX_DURATION_SECONDS"
      "max_tokens_per_incident config > 0"
      "input_tokens (result st) + output_tokens (result st) \<ge> max_tokens_per_incident config"
    using that by (subst agent_loop.simps) (simp add: Let_def)
  from total duration budget show ?thesis
    by (simp add: MAX_TURNS_def MAX_DURATION_SECONDS_def)
qed

text \<open>
  The theorem at two loop states of the examples: the second turn of the slow world
  (301 seconds elapsed), and the second turn of the fast world with 1100 tokens used of
  a budget of 1000.
\<close>

definition ex_loop_state :: LoopState where
  "ex_loop_state =
     \<lparr>result = AgentResult_init\<lparr>turns := 1, input_tokens := 600, output_tokens := 500\<rparr>,
      messages = [], current_model = ''gpt-4o-mini'', escalated_model = False\<rparr>"

theorem agent_run_limits_witness:
  "(1::nat) < MAX_TURNS \<and> elapsed ex_env_slow 1 > MAX_DURATION_SECONDS
   \<and> agent_loop ex_config ex_env_slow 1 ex_loop_state =
       Inr ((result ex_loop_state)\<lparr>turns := 2, summary := DurationLimitExceeded 301 2\<rparr>)
   \<and> \<not> elapsed ex_env_fast 1 > MAX_DURATION_SECONDS
   \<and> max_tokens_per_incident ex_config > 0
   \<and> input_tokens (result ex_loop_state) + output_tokens (result ex_loop_state)
        \<ge> max_tokens_per_incident ex_config
   \<and> agent_loop ex_config ex_env_fast 1 ex_loop_state =
       Inr ((result ex_loop_state)\<lparr>turns := 2, summary := TokenBudgetExceeded 1100 1000 2\<rparr>)
   \<and> (\<exists>r. run_agent ex_config ex_env_fast ''prompt'' ''alert'' = Inr r
            \<and> 1 \<le> turns r \<and> turns r \<le> 20)"
proof -
  have h: "(1::nat) < MAX_TURNS" "elapsed ex_env_slow 1 > MAX_DURATION_SECONDS"
    "\<not> elapsed ex_env_fast 1 > MAX_DURATION_SECONDS"
    "max_tokens_per_incident ex_config > 0"
    "input_tokens (result ex_loop_state) + output_tokens (result ex_loop_state)
        \<ge> max_tokens_per_incident ex_config"
    "input_tokens (result ex_loop_state) + output_tokens (result ex_loop_state) = 1100"
    "max_tokens_per_incident ex_config = 1000"
    "elapsed ex_env_slow 1 = 301"
    by (simp_all add: MAX_TURNS_def MAX_DURATION_SECONDS_def ex_env_slow_def
        ex_env_fast_def ex_config_def ex_loop_state_def AgentResult_init_def)
  have r: "\<exists>r. run_agent ex_config ex_env_fast ''prompt'' ''alert'' = Inr r"
    by (simp add: agent_defs)
  from agent_run_limits [where config = ex_config and env = ex_env_slow and turn = 1
        and st = ex_loop_state and system_prompt = "''prompt''" and user_message = "''alert''"]
    agent_run_limits [where config = ex_config and env = ex_env_fast and turn = 1
        and st = ex_loop_state and system_prompt = "''prompt''" and user_message = "''alert''"]
    h r
  show ?thesis by auto
qed

text \<open>
  The claim as stated fails in two ways. With exactly 300 seconds elapsed at the start
  of the first turn the duration gate does not fire (the comparison is strict): the
  completion is called and its text becomes the summary. And when both gates apply at
  the start of the second turn of the slow world (301 seconds, 1100 tokens of 1000), the
  summary states the duration limit, not the budget.
\<close>

theorem agent_run_limits_counterexample:
  "elapsed ex_env_300 0 \<ge> MAX_DURATION_SECONDS
   \<and> run_agent ex_config ex_env_300 ''prompt'' ''alert'' =
       Inr (AgentResult_init\<lparr>turns := 1, summary := FinalText ''resolved''\<rparr>)
   \<and> max_tokens_per_incident ex_config = 1000
   \<and> run_agent ex_config ex_env_slow ''prompt'' ''alert'' =
       Inr \<lparr>summary = DurationLimitExceeded 301 2, turns = 2, input_tokens = 600,
            output_tokens = 500, models_used = [''gpt-4o-mini''],
            tool_calls_made = [''call_ops_endpoint'']\<rparr>"
  by (simp add: agent_defs)


section \<open>Processing an alert (main.py)\<close>

text \<open>
  Outbound requests to the incident provider, by URL and payload (the headers carry the
  API token and the trace id). The note text is a formatted string in the source; the
  model keeps the values formatted into it.
\<close>

datatype NoteContent = BudgetExhaustedNote string int int PagerDutyAlert

datatype HttpRequest =
    PostNote string NoteContent
  | PutEscalationLevel string int

text \<open>
  The module-level objects of main.py: the intake (which holds the shared runtime state and
  the instruments), the observability map \<^verbatim>\<open>_alert_queue\<close> (incident id to status), and
  three logs of what the process did to the outside: the requests sent to the incident
  provider, the agent runs started, and the report files a cost footer was appended to.
\<close>

record App =
  intake :: AlertIntake
  alert_queue :: "string \<rightharpoonup> string"
  outbox :: "HttpRequest list"
  agent_started :: "(PagerDutyAlert \<times> string) list"
  footers :: "string list"

definition upd_state :: "(RuntimeState \<Rightarrow> RuntimeState) \<Rightarrow> App \<Rightarrow> App" where
  "upd_state f app = app\<lparr>intake := (intake app)\<lparr>state := f (state (intake app))\<rparr>\<rparr>"

definition upd_telemetry :: "(Telemetry \<Rightarrow> Telemetry) \<Rightarrow> App \<Rightarrow> App" where
  "upd_telemetry f app =
     app\<lparr>intake := (intake app)\<lparr>telemetry := f (telemetry (intake app))\<rparr>\<rparr>"

text \<open>
  The world of one \<^verbatim>\<open>_process_alert\<close> call: its clock reads (budget check, escalation
  message, start of the run, the two reads after the run has returned or raised, and the
  two reads of the exception handler when it runs after the cost footer has raised), the
  world of the agent run with the two first messages of the conversation, and whether a
  request to the provider returns (\<open>True\<close>) or raises. The incidents directory as the
  cost footer finds it is either absent or present, and then looking for its report files
  (the listing, and the modification time of each) gives their names, newest first, or
  raises; \<open>footer_ok\<close> tells whether appending to the newest report and reading it back
  succeed.
\<close>

datatype ReportDir = NoDir | Dir "PyExc + string list"

record ProcessEnv =
  t_check :: real
  t_note :: real
  t_start :: real
  t_end :: real
  t_log :: real
  t_fail :: real
  t_err :: real
  agent_env :: AgentEnv
  system_prompt :: string
  user_message :: string
  http_ok :: "HttpRequest \<Rightarrow> bool"
  report_dir :: ReportDir
  footer_ok :: bool

definition tokens_last_hour :: "real \<Rightarrow> RuntimeState \<Rightarrow> int" where
  "tokens_last_hour now st =
     (let cutoff = now - 3600
      in sum_list (map snd (filter (\<lambda>(ts, tokens). ts \<ge> cutoff) (hourly_token_log st))))"

definition is_hourly_budget_exhausted :: "Config \<Rightarrow> real \<Rightarrow> RuntimeState \<Rightarrow> bool" where
  "is_hourly_budget_exhausted config now st =
     (if max_tokens_per_hour config \<le> 0 then False
      else tokens_last_hour now st \<ge> max_tokens_per_hour config)"

definition escalate_budget_exhausted ::
  "Config \<Rightarrow> ProcessEnv \<Rightarrow> PagerDutyAlert \<Rightarrow> string \<Rightarrow> string \<Rightarrow> App \<Rightarrow> PyExc option \<times> App" where
  "escalate_budget_exhausted config env a tr budget_type app =
     (let tokens_used = tokens_last_hour (t_note env) (state (intake app));
          budget = max_tokens_per_hour config;
          note = PostNote (''https://api.pagerduty.com/incidents/'' @ incident_id a @ ''/notes'')
                   (BudgetExhaustedNote budget_type tokens_used budget a);
          app1 = app\<lparr>outbox := outbox app @ [note]\<rparr>
      in if \<not> http_ok env note then (Some HTTPError, app1)
         else
           (let put = PutEscalationLevel
                        (''https://api.pagerduty.com/incidents/'' @ incident_id a) 2;
                app2 = app1\<lparr>outbox := outbox app1 @ [put]\<rparr>
            in if \<not> http_ok env put then (Some HTTPError, app2) else (None, app2)))"

text \<open>
  \<^verbatim>\<open>_append_cost_to_report\<close>: nothing is done when the incidents directory does not
  exist or holds no report; an exception raised while the reports are looked up leaves
  the function; a failure of the append itself is caught and logged. The text of the
  footer is not part of the model.
\<close>

definition append_cost_to_report :: "ProcessEnv \<Rightarrow> App \<Rightarrow> PyExc option \<times> App" where
  "append_cost_to_report env app =
     (case report_dir env of
        NoDir \<Rightarrow> (None, app)
      | Dir (Inl e) \<Rightarrow> (Some e, app)
      | Dir (Inr []) \<Rightarrow> (None, app)
      | Dir (Inr (latest # older)) \<Rightarrow>
          (None, if footer_ok env then app\<lparr>footers := footers app @ [latest]\<rparr> else app))"

text \<open>
  The \<^verbatim>\<open>except Exception\<close> handler of \<^verbatim>\<open>_process_alert\<close>, with the duration it computes
  and the time stamp it gives the error record.
\<close>

definition process_alert_except ::
  "real \<Rightarrow> real \<Rightarrow> PagerDutyAlert \<Rightarrow> string \<Rightarrow> App \<Rightarrow> App" where
  "process_alert_except duration ts a tr app =
     (let app2 = upd_telemetry
            (\<lambda>t. t\<lparr>agent_runs_failed_counter := agent_runs_failed_counter t + 1,
                    incidents_active_updown := incidents_active_updown t - 1\<rparr>)
            (upd_state
               (\<lambda>st. st\<lparr>agent_runs_failed := agent_runs_failed st + 1,
                  run_durations := deque_append 500 (run_durations st) duration,
                  active_incidents := (active_incidents st)(incident_id a := None),
                  recent_errors := deque_append 50 (recent_errors st)
                    \<lparr>err_timestamp = ts, err_type = ''agent_failure'',
                     err_message = ''Agent failed for incident '' @ incident_id a,
                     err_incident_id = Some (incident_id a),
                     err_trace_id = Some tr\<rparr>\<rparr>)
               app)
      in app2\<lparr>alert_queue := (alert_queue app2)(incident_id a \<mapsto> ''failed'')\<rparr>)"

text \<open>
  \<^verbatim>\<open>_process_alert\<close>. The agent run and the bookkeeping of its success, up to and
  including the cost footer, are the body of the \<^verbatim>\<open>try\<close>: when the agent run raises,
  the handler runs instead of that bookkeeping, and when the cost footer raises, the
  handler runs after it.
\<close>

definition process_alert ::
  "Config \<Rightarrow> ProcessEnv \<Rightarrow> PagerDutyAlert \<Rightarrow> string \<Rightarrow> App \<Rightarrow> PyExc option \<times> App" where
  "process_alert config env a tr app =
     (let app0 = app\<lparr>alert_queue := (alert_queue app)(incident_id a \<mapsto> ''processing'')\<rparr>
      in if is_hourly_budget_exhausted config (t_check env) (state (intake app0)) then
           (let app1 = upd_telemetry
                  (\<lambda>t. t\<lparr>agent_runs_completed_counter := agent_runs_completed_counter t + 1,
                          incidents_active_updown := incidents_active_updown t - 1\<rparr>)
                  (upd_state
                     (\<lambda>st. st\<lparr>agent_runs_completed := agent_runs_completed st + 1,
                              active_incidents := (active_incidents st)(incident_id a := None)\<rparr>)
                     app0);
                app2 = app1\<lparr>alert_queue := (alert_queue app1)(incident_id a \<mapsto> ''escalated'')\<rparr>
            in escalate_budget_exhausted config env a tr ''hourly'' app2)
         else
           (let app1 = app0\<lparr>agent_started := agent_started app0 @ [(a, tr)]\<rparr>
            in case run_agent config (agent_env env) (system_prompt env) (user_message env) of
                 Inr res \<Rightarrow>
                   (let duration = t_end env - t_start env;
                        run_tokens = input_tokens res + output_tokens res;
                        app2 = upd_telemetry
                          (\<lambda>t. t\<lparr>agent_runs_completed_counter :=
                                    agent_runs_completed_counter t + 1,
                                  incidents_active_updown := incidents_active_updown t - 1\<rparr>)
                          (upd_state
                             (\<lambda>st. st\<lparr>agent_runs_completed := agent_runs_completed st + 1,
                                run_durations := deque_append 500 (run_durations st) duration,
                                active_incidents :=
                                  (active_incidents st)(incident_id a := None),
                                total_input_tokens := total_input_tokens st + input_tokens res,
                                total_output_tokens :=
                                  total_output_tokens st + output_tokens res,
                                run_token_usage :=
                                  deque_append 500 (run_token_usage st) run_tokens,
                                hourly_token_log :=
                                  deque_append 10000 (hourly_token_log st)
                                    (t_log env, run_tokens)\<rparr>)
                             app1);
                        app3 = app2\<lparr>alert_queue :=
                                 (alert_queue app2)(incident_id a \<mapsto> ''done'')\<rparr>
                    in case append_cost_to_report env app3 of
                         (None, app4) \<Rightarrow> (None, app4)
                       | (Some e, app4) \<Rightarrow>
                           (None, process_alert_except (t_fail env - t_start env) (t_err env)
                                    a tr app4))
               | Inl e \<Rightarrow>
                   (None, process_alert_except (t_end env - t_start env) (t_log env)
                            a tr app1)))"

text \<open>
  \<^verbatim>\<open>_run_wrapper\<close>: the processing function, then (on any exit path) the completion
  under the intake lock, with the two clock reads of its scan.
\<close>

definition run_wrapper ::
  "Config \<Rightarrow> ProcessEnv \<Rightarrow> real \<Rightarrow> real \<Rightarrow> PagerDutyAlert \<Rightarrow> string \<Rightarrow> App \<Rightarrow> PyExc option \<times> App" where
  "run_wrapper config env now now2 a tr app =
     (case process_alert config env a tr app of
        (exc, app1) \<Rightarrow> (exc, app1\<lparr>intake := run_finished a tr now now2 (intake app1)\<rparr>))"

text \<open>
  What the incident provider does with a request, per its API: an incident update with
  an \<^verbatim>\<open>escalation_level\<close> moves the incident to that level of its escalation policy; a
  note leaves the level alone. Levels are given per incident URL.
\<close>

fun provider_apply :: "(string \<Rightarrow> int) \<Rightarrow> HttpRequest \<Rightarrow> (string \<Rightarrow> int)" where
  "provider_apply level (PostNote url note) = level"
| "provider_apply level (PutEscalationLevel url n) = level(url := n)"

text \<open>
  Scenario S7: the budget is 1000 tokens per hour, the log holds 700 and 500 tokens
  recorded 900 and 800 seconds before the check, and \<open>inc-1\<close> has just been dispatched.
\<close>

definition ex_process_env :: ProcessEnv where
  "ex_process_env =
     \<lparr>t_check = 1000, t_note = 1000, t_start = 1000, t_end = 1001, t_log = 1001,
      t_fail = 1002, t_err = 1002,
      agent_env = ex_env_300, system_prompt = ''prompt'', user_message = ''alert'',
      http_ok = (\<lambda>request. True), report_dir = NoDir, footer_ok = True\<rparr>"

definition ex_app :: App where
  "ex_app =
     \<lparr>intake = ex_s1\<lparr>state := (state ex_s1)\<lparr>hourly_token_log := [(100, 700), (200, 500)]\<rparr>\<rparr>,
      alert_queue = Map.empty, outbox = [], agent_started = [], footers = []\<rparr>"

section \<open>The hourly budget pre-check\<close>

lemma process_alert_exhausted:
  assumes "is_hourly_budget_exhausted config (t_check env) (state (intake app))"
  shows "process_alert config env a tr app =
     escalate_budget_exhausted config env a tr ''hourly''
       (app\<lparr>intake := (intake app)
               \<lparr>state := (state (intake app))
                  \<lparr>agent_runs_completed := agent_runs_completed (state (intake app)) + 1,
                   active_incidents :=
                     (active_incidents (state (intake app)))(incident_id a := None)\<rparr>,
                telemetry := (telemetry (intake app))
                  \<lparr>agent_runs_completed_counter :=
                     agent_runs_completed_counter (telemetry (intake app)) + 1,
                   incidents_active_updown :=
                     incidents_active_updown (telemetry (intake app)) - 1\<rparr>\<rparr>,
             alert_queue := (alert_queue app)(incident_id a \<mapsto> ''escalated'')\<rparr>)"
  using assms
  by (simp add: process_alert_def upd_state_def upd_telemetry_def Let_def)

lemma escalate_budget_exhausted_app:
  "snd (escalate_budget_exhausted config env a tr budget_type app) =
     app\<lparr>outbox := outbox app @
        PostNote (''https://api.pagerduty.com/incidents/'' @ incident_id a @ ''/notes'')
          (BudgetExhaustedNote budget_type
             (tokens_last_hour (t_note env) (state (intake app)))
             (max_tokens_per_hour config) a)
        # (if http_ok env
               (PostNote (''https://api.pagerduty.com/incidents/'' @ incident_id a @ ''/notes'')
                  (BudgetExhaustedNote budget_type
                     (tokens_last_hour (t_note env) (state (intake app)))
                     (max_tokens_per_hour config) a))
           then [PutEscalationLevel
                   (''https://api.pagerduty.com/incidents/'' @ incident_id a) 2]
           else [])\<rparr>"
  by (simp add: escalate_budget_exhausted_def Let_def)

lemma agent_started_append_cost_to_report [simp]:
  "agent_started (snd (append_cost_to_report env app)) = agent_started app"
  by (simp add: append_cost_to_report_def split: ReportDir.splits sum.splits list.splits)

lemma agent_started_process_alert_except [simp]:
  "agent_started (process_alert_except duration ts a tr app) = agent_started app"
  by (simp add: process_alert_except_def upd_state_def upd_telemetry_def Let_def)

lemma process_alert_not_exhausted:
  assumes "\<not> is_hourly_budget_exhausted config (t_check env) (state (intake app))"
  shows "agent_started (snd (process_alert config env a tr app)) = agent_started app @ [(a, tr)]"
proof (cases "run_agent config (agent_env env) (system_prompt env) (user_message env)")
  case (Inl e)
  with assms show ?thesis
    by (simp add: process_alert_def Let_def)
next
  case (Inr res)
  let ?app3 = "(upd_telemetry
        (\<lambda>t. t\<lparr>agent_runs_completed_counter := agent_runs_completed_counter t + 1,
                incidents_active_updown := incidents_active_updown t - 1\<rparr>)
        (upd_state
           (\<lambda>st. st\<lparr>agent_runs_completed := agent_runs_completed st + 1,
              run_durations :=
                deque_append 500 (run_durations st) (t_end env - t_start env),
              active_incidents := (active_incidents st)(incident_id a := None),
              total_input_tokens := total_input_tokens st + input_tokens res,
              total_output_tokens := total_output_tokens st + output_tokens res,
              run_token_usage :=
                deque_append 500 (run_token_usage st) (input_tokens res + output_tokens res),
              hourly_token_log :=
                deque_append 10000 (hourly_token_log st)
                  (t_log env, input_tokens res + output_tokens res)\<rparr>)
           (app\<lparr>alert_queue := (alert_queue app)(incident_id a \<mapsto> ''processing''),
               agent_started := agent_started app @ [(a, tr)]\<rparr>)))
      \<lparr>alert_queue := (alert_queue app)(incident_id a \<mapsto> ''done'')\<rparr>"
  obtain exc app4 where c: "append_cost_to_report env ?app3 = (exc, app4)"
    by (cases "append_cost_to_report env ?app3")
  from c have "app4 = snd (append_cost_to_report env ?app3)"
    by simp
  then have "agent_started app4 = agent_started ?app3"
    by (simp only: agent_started_append_cost_to_report)
  then have "agent_started app4 = agent_started app @ [(a, tr)]"
    by (simp add: upd_state_def upd_telemetry_def)
  with assms Inr c show ?thesis
    by (cases exc) (simp_all add: process_alert_def Let_def upd_state_def upd_telemetry_def)
qed

text \<open>
  Claim C5, as amended. The budget is exhausted exactly when \<open>max_tokens_per_hour\<close> is
  positive and the tokens logged with a time stamp within the last 3600 seconds sum up to
  at least that budget. In that case the agent is not run; \<open>agent_runs_completed\<close> is
  incremented; the incident is removed from the active map; a budget-exhausted note is
  posted to the incident and, when that request returns, a request that sets the
  incident's escalation level to 2 is sent to the provider; the wrapper then runs the
  completion, which frees the service slot (the slot is free afterwards when nothing
  waits in the queue). When the budget is not exhausted the agent is run.
\<close>

theorem hourly_budget_precheck:
  "(is_hourly_budget_exhausted config (t_check env) (state (intake app)) \<longleftrightarrow>
      0 < max_tokens_per_hour config
      \<and> max_tokens_per_hour config \<le>
          sum_list (map snd (filter (\<lambda>(ts, tokens). t_check env - 3600 \<le> ts)
                               (hourly_token_log (state (intake app))))))
   \<and> (\<not> is_hourly_budget_exhausted config (t_check env) (state (intake app)) \<longrightarrow>
        agent_started (snd (process_alert config env a tr app)) = agent_started app @ [(a, tr)])
   \<and> (is_hourly_budget_exhausted config (t_check env) (state (intake app)) \<longrightarrow>
        agent_started (snd (process_alert config env a tr app)) = agent_started app
        \<and> agent_runs_completed (state (intake (snd (process_alert config env a tr app))))
            = agent_runs_completed (state (intake app)) + 1
        \<and> active_incidents (state (intake (snd (process_alert config env a tr app))))
            (incident_id a) = None
        \<and> outbox (snd (process_alert config env a tr app)) =
            outbox app @
            PostNote (''https://api.pagerduty.com/incidents/'' @ incident_id a @ ''/notes'')
              (BudgetExhaustedNote ''hourly''
                 (tokens_last_hour (t_note env) (state (intake app)))
                 (max_tokens_per_hour config) a)
            # (if http_ok env
                   (PostNote
                      (''https://api.pagerduty.com/incidents/'' @ incident_id a @ ''/notes'')
                      (BudgetExhaustedNote ''hourly''
                         (tokens_last_hour (t_note env) (state (intake app)))
                         (max_tokens_per_hour config) a))
               then [PutEscalationLevel
                       (''https://api.pagerduty.com/incidents/'' @ incident_id a) 2]
               else [])
        \<and> intake (snd (run_wrapper config env now now2 a tr app)) =
            run_finished a tr now now2 (intake (snd (process_alert config env a tr app)))
        \<and> (queue (intake app) = [] \<longrightarrow>
             active_services (intake (snd (run_wrapper config env now now2 a tr app)))
               (service_name a) = None))"
proof (intro conjI impI)
  show "is_hourly_budget_exhausted config (t_check env) (state (intake app)) \<longleftrightarrow>
      0 < max_tokens_per_hour config
      \<and> max_tokens_per_hour config \<le>
          sum_list (map snd (filter (\<lambda>(ts, tokens). t_check env - 3600 \<le> ts)
                               (hourly_token_log (state (intake app)))))"
    by (auto simp: is_hourly_budget_exhausted_def tokens_last_hour_def Let_def)
next
  assume "\<not> is_hourly_budget_exhausted config (t_check env) (state (intake app))"
  then show "agent_started (snd (process_alert config env a tr app)) = agent_started app @ [(a, tr)]"
    by (rule process_alert_not_exhausted)
next
  assume ex: "is_hourly_budget_exhausted config (t_check env) (state (intake app))"
  note p = process_alert_exhausted [OF ex, of a tr] escalate_budget_exhausted_app
  show "agent_started (snd (process_alert config env a tr app)) = agent_started app"
    by (simp add: p)
  show "agent_runs_completed (state (intake (snd (process_alert config env a tr app))))
            = agent_runs_completed (state (intake app)) + 1"
    by (simp add: p)
  show "active_incidents (state (intake (snd (process_alert config env a tr app))))
            (incident_id a) = None"
    by (simp add: p)
  show "outbox (snd (process_alert config env a tr app)) =
            outbox app @
            PostNote (''https://api.pagerduty.com/incidents/'' @ incident_id a @ ''/notes'')
              (BudgetExhaustedNote ''hourly''
                 (tokens_last_hour (t_note env) (state (intake app)))
                 (max_tokens_per_hour config) a)
            # (if http_ok env
                   (PostNote
                      (''https://api.pagerduty.com/incidents/'' @ incident_id a @ ''/notes'')
                      (BudgetExhaustedNote ''hourly''
                         (tokens_last_hour (t_note env) (state (intake app)))
                         (max_tokens_per_hour config) a))
               then [PutEscalationLevel
                       (''https://api.pagerduty.com/incidents/'' @ incident_id a) 2]
               else [])"
    by (simp add: p tokens_last_hour_def)
  show w: "intake (snd (run_wrapper config env now now2 a tr app)) =
            run_finished a tr now now2 (intake (snd (process_alert config env a tr app)))"
    by (simp add: run_wrapper_def split: prod.splits)
  assume "queue (intake app) = []"
  then show "active_services (intake (snd (run_wrapper config env now now2 a tr app)))
               (service_name a) = None"
    unfolding w
    by (simp add: p run_finished_def on_complete_def dispatch_next_def Let_def)
qed

lemma ex_app_exhausted:
  "is_hourly_budget_exhausted ex_config (t_check ex_process_env) (state (intake ex_app))"
  by (simp add: is_hourly_budget_exhausted_def tokens_last_hour_def ex_config_def
      ex_process_env_def ex_app_def Let_def)

lemma ex_app_outbox:
  "outbox (snd (process_alert ex_config ex_process_env ex_inc1 ''t1'' ex_app)) =
     [PostNote ''https://api.pagerduty.com/incidents/inc-1/notes''
        (BudgetExhaustedNote ''hourly'' 1200 1000 ex_inc1),
      PutEscalationLevel ''https://api.pagerduty.com/incidents/inc-1'' 2]"
  by (simp add: process_alert_exhausted [OF ex_app_exhausted] escalate_budget_exhausted_app)
     (simp add: tokens_last_hour_def ex_config_def ex_process_env_def ex_app_def
        ex_inc1_def Let_def)

text \<open>
  The theorem at scenario S7, and at the same scenario with an empty token log (where
  the agent is run).
\<close>

theorem hourly_budget_precheck_witness:
  "is_hourly_budget_exhausted ex_config (t_check ex_process_env) (state (intake ex_app))
   \<and> agent_started (snd (process_alert ex_config ex_process_env ex_inc1 ''t1'' ex_app)) = []
   \<and> agent_runs_completed
        (state (intake (snd (process_alert ex_config ex_process_env ex_inc1 ''t1'' ex_app)))) = 1
   \<and> active_incidents
        (state (intake (snd (process_alert ex_config ex_process_env ex_inc1 ''t1'' ex_app))))
        ''inc-1'' = None
   \<and> outbox (snd (process_alert ex_config ex_process_env ex_inc1 ''t1'' ex_app)) =
       [PostNote ''https://api.pagerduty.com/incidents/inc-1/notes''
          (BudgetExhaustedNote ''hourly'' 1200 1000 ex_inc1),
        PutEscalationLevel ''https://api.pagerduty.com/incidents/inc-1'' 2]
   \<and> queue (intake ex_app) = []
   \<and> active_services
        (intake (snd (run_wrapper ex_config ex_process_env 1002 1003 ex_inc1 ''t1'' ex_app)))
        ''api'' = None
   \<and> \<not> is_hourly_budget_exhausted ex_config (t_check ex_process_env)
          (state (intake (upd_state (\<lambda>st. st\<lparr>hourly_token_log := []\<rparr>) ex_app)))
   \<and> agent_started (snd (process_alert ex_config ex_process_env ex_inc1 ''t1''
          (upd_state (\<lambda>st. st\<lparr>hourly_token_log := []\<rparr>) ex_app))) = [(ex_inc1, ''t1'')]"
proof -
  have q: "queue (intake ex_app) = []" and s: "agent_started ex_app = []"
    and o: "outbox ex_app = []" and i: "incident_id ex_inc1 = ''inc-1''"
    and n: "service_name ex_inc1 = ''api''"
    and c: "agent_runs_completed (state (intake ex_app)) = 0"
    by (simp_all add: ex_app_def ex_defs intake_defs)
  have e: "\<not> is_hourly_budget_exhausted ex_config (t_check ex_process_env)
          (state (intake (upd_state (\<lambda>st. st\<lparr>hourly_token_log := []\<rparr>) ex_app)))"
    and s': "agent_started (upd_state (\<lambda>st. st\<lparr>hourly_token_log := []\<rparr>) ex_app) = []"
    by (simp_all add: is_hourly_budget_exhausted_def tokens_last_hour_def ex_config_def
        ex_process_env_def ex_app_def upd_state_def Let_def)
  note T = hourly_budget_precheck [where config = ex_config and env = ex_process_env
      and app = ex_app and a = ex_inc1 and tr = "''t1''" and now = 1002 and ?now2.0 = 1003,
      THEN conjunct2, THEN conjunct2, THEN mp, OF ex_app_exhausted]
  note U = hourly_budget_precheck [where config = ex_config and env = ex_process_env
      and app = "upd_state (\<lambda>st. st\<lparr>hourly_token_log := []\<rparr>) ex_app" and a = ex_inc1
      and tr = "''t1''" and now = 1002 and ?now2.0 = 1003,
      THEN conjunct2, THEN conjunct1, THEN mp, OF e]
  have 1: "agent_started (snd (process_alert ex_config ex_process_env ex_inc1 ''t1'' ex_app)) = []"
    using T [THEN conjunct1] s by simp
  have 2: "agent_runs_completed
        (state (intake (snd (process_alert ex_config ex_process_env ex_inc1 ''t1'' ex_app)))) = 1"
    using T [THEN conjunct2, THEN conjunct1] c by simp
  have 3: "active_incidents
        (state (intake (snd (process_alert ex_config ex_process_env ex_inc1 ''t1'' ex_app))))
        ''inc-1'' = None"
    using T [THEN conjunct2, THEN conjunct2, THEN conjunct1] i by simp
  have 4: "active_services
        (intake (snd (run_wrapper ex_config ex_process_env 1002 1003 ex_inc1 ''t1'' ex_app)))
        ''api'' = None"
    using T [THEN conjunct2, THEN conjunct2, THEN conjunct2, THEN conjunct2, THEN conjunct2,
        THEN mp, OF q] n by simp
  have 5: "agent_started (snd (process_alert ex_config ex_process_env ex_inc1 ''t1''
          (upd_state (\<lambda>st. st\<lparr>hourly_token_log := []\<rparr>) ex_app))) = [(ex_inc1, ''t1'')]"
    using U s' by simp
  from ex_app_exhausted 1 2 3 ex_app_outbox q 4 e 5 show ?thesis
    by (intro conjI)
qed

text \<open>
  The claim as stated says the escalation level is advanced by one. The request of the
  code carries the constant level 2. For an incident that already is at level 2 (the
  webhook also admits \<^verbatim>\<open>incident.escalated\<close> events), the provider's level after the
  requests of scenario S7 is still 2, not 3.
\<close>

theorem hourly_budget_precheck_counterexample:
  "is_hourly_budget_exhausted ex_config (t_check ex_process_env) (state (intake ex_app))
   \<and> outbox (snd (process_alert ex_config ex_process_env ex_inc1 ''t1'' ex_app)) =
       [PostNote ''https://api.pagerduty.com/incidents/inc-1/notes''
          (BudgetExhaustedNote ''hourly'' 1200 1000 ex_inc1),
        PutEscalationLevel ''https://api.pagerduty.com/incidents/inc-1'' 2]
   \<and> foldl provider_apply (\<lambda>url. 2)
        (outbox (snd (process_alert ex_config ex_process_env ex_inc1 ''t1'' ex_app)))
        ''https://api.pagerduty.com/incidents/inc-1'' = 2"
  by (simp add: ex_app_exhausted ex_app_outbox)


section \<open>Webhook admission (main.py)\<close>

text \<open>
  \<^verbatim>\<open>hmac.compare_digest\<close> on two \<^verbatim>\<open>str\<close> arguments: the library raises TypeError when
  either string has a non-ASCII character, and otherwise tells whether they are equal.
  A header value is a string of 8-bit characters (the server decodes it as Latin-1).
\<close>

definition is_ascii :: "string \<Rightarrow> bool" where
  "is_ascii s = list_all (\<lambda>c. (of_char c :: nat) < 128) s"

definition compare_digest :: "string \<Rightarrow> string \<Rightarrow> PyExc + bool" where
  "compare_digest a b = (if is_ascii a \<and> is_ascii b then Inr (a = b) else Inl TypeError)"

text \<open>\<^verbatim>\<open>str.removeprefix\<close>\<close>

definition removeprefix :: "string \<Rightarrow> string \<Rightarrow> string" where
  "removeprefix p s = (if take (length p) s = p then drop (length p) s else s)"

text \<open>\<^verbatim>\<open>hexdigest()\<close>: two lowercase hexadecimal digits per byte of the digest.\<close>

definition hexdigit :: "nat \<Rightarrow> char" where
  "hexdigit n = ''0123456789abcdef'' ! n"

definition hexdigest :: "string \<Rightarrow> string" where
  "hexdigest digest =
     concat (map (\<lambda>c. [hexdigit (of_char c div 16), hexdigit (of_char c mod 16)]) digest)"

text \<open>
  \<^verbatim>\<open>_verify_signature\<close>. The keyed hash of the library is a parameter:
  \<open>hmac_sha256 secret body\<close> is the 32-byte digest of \<^verbatim>\<open>hmac.new(secret.encode(), body,
  hashlib.sha256)\<close>.
\<close>

definition verify_signature ::
  "(string \<Rightarrow> string \<Rightarrow> string) \<Rightarrow> string \<Rightarrow> string \<Rightarrow> string \<Rightarrow> PyExc + bool" where
  "verify_signature hmac_sha256 body signature secret =
     (if signature = [] then Inr False
      else (let expected = hexdigest (hmac_sha256 secret body);
                provided = removeprefix ''v1='' signature
            in compare_digest expected provided))"

text \<open>
  A request as the two handlers read it: the raw body, the signature header and the
  \<^verbatim>\<open>auth_token\<close> query parameter (absent: \<open>None\<close>), and the outcome of
  \<^verbatim>\<open>request.json()\<close> (\<open>None\<close> when it raises). Of a decoded payload the model keeps the
  event type (incident provider), the incident state (cloud monitoring) and the outcome
  of parsing it into an alert (\<open>None\<close> when the parser raises).
\<close>

record Payload =
  p_event_type :: string
  p_incident_state :: string
  p_alert :: "PagerDutyAlert option"

record Request =
  body :: string
  x_pagerduty_signature :: "string option"
  query_auth_token :: "string option"
  json :: "Payload option"

text \<open>
  What a handler gives back: a JSON object, an \<^verbatim>\<open>HTTPException\<close> with status and
  detail, or an unhandled exception (which the framework answers with status 500).
\<close>

datatype HttpResult =
    Response "(string \<times> string) list"
  | HTTPException int string
  | Unhandled PyExc

definition count_received :: "App \<Rightarrow> App" where
  "count_received app =
     upd_telemetry (\<lambda>t. t\<lparr>webhooks_received_counter := webhooks_received_counter t + 1\<rparr>)
       (upd_state (\<lambda>st. st\<lparr>webhooks_received := webhooks_received st + 1\<rparr>) app)"

definition count_failed :: "App \<Rightarrow> App" where
  "count_failed app =
     upd_telemetry (\<lambda>t. t\<lparr>webhooks_failed_counter := webhooks_failed_counter t + 1\<rparr>)
       (upd_state (\<lambda>st. st\<lparr>webhooks_failed := webhooks_failed st + 1\<rparr>) app)"

definition count_ignored :: "App \<Rightarrow> App" where
  "count_ignored app =
     upd_telemetry (\<lambda>t. t\<lparr>webhooks_ignored_counter := webhooks_ignored_counter t + 1\<rparr>)
       (upd_state (\<lambda>st. st\<lparr>webhooks_ignored := webhooks_ignored st + 1\<rparr>) app)"

definition count_processed :: "App \<Rightarrow> App" where
  "count_processed app =
     upd_telemetry (\<lambda>t. t\<lparr>webhooks_processed_counter := webhooks_processed_counter t + 1\<rparr>)
       (upd_state (\<lambda>st. st\<lparr>webhooks_processed := webhooks_processed st + 1\<rparr>) app)"

definition record_error :: "real \<Rightarrow> string \<Rightarrow> string \<Rightarrow> string \<Rightarrow> App \<Rightarrow> App" where
  "record_error now ty msg tr app =
     upd_state
       (\<lambda>st. st\<lparr>recent_errors := deque_append 50 (recent_errors st)
                 \<lparr>err_timestamp = now, err_type = ty, err_message = msg,
                  err_incident_id = None, err_trace_id = Some tr\<rparr>\<rparr>)
       app"

text \<open>The end of both handlers: the alert goes to the intake.\<close>

definition submit_to_intake :: "PagerDutyAlert \<Rightarrow> string \<Rightarrow> real \<Rightarrow> App \<Rightarrow> HttpResult \<times> App" where
  "submit_to_intake a tr now app =
     (let app1 = count_processed app
      in case submit a tr now (intake app1) of
           (disposition, s) \<Rightarrow>
             (Response [(''status'', disposition), (''incident_id'', incident_id a),
                        (''trace_id'', tr)],
              app1\<lparr>intake := s\<rparr>))"

text \<open>\<^verbatim>\<open>receive_webhook\<close> from \<^verbatim>\<open>request.json()\<close> on.\<close>

definition webhook_admit :: "string \<Rightarrow> real \<Rightarrow> Request \<Rightarrow> App \<Rightarrow> HttpResult \<times> App" where
  "webhook_admit tr now request app =
     (case json request of
        None \<Rightarrow> (Unhandled JSONDecodeError, app)
      | Some payload \<Rightarrow>
          (if p_event_type payload \<notin> {''incident.triggered'', ''incident.escalated''} then
             (Response [(''status'', ''ignored''), (''event_type'', p_event_type payload)],
              count_ignored app)
           else
             (case p_alert payload of
                None \<Rightarrow>
                  (HTTPException 400 ''Invalid payload'',
                   record_error now ''payload_parse_error''
                     ''Failed to parse PagerDuty webhook payload'' tr (count_failed app))
              | Some a \<Rightarrow> submit_to_intake a tr now app)))"

definition receive_webhook ::
  "Config \<Rightarrow> (string \<Rightarrow> string \<Rightarrow> string) \<Rightarrow> string \<Rightarrow> real \<Rightarrow> Request \<Rightarrow> App
     \<Rightarrow> HttpResult \<times> App" where
  "receive_webhook config hmac_sha256 tr now request app =
     (let app1 = count_received app
      in if draining (state (intake app1)) then
           (HTTPException 503 ''Service is draining'', app1)
         else if pagerduty_webhook_secret config \<noteq> [] then
           (let signature = (case x_pagerduty_signature request of
                               None \<Rightarrow> [] | Some v \<Rightarrow> v)
            in case verify_signature hmac_sha256 (body request) signature
                      (pagerduty_webhook_secret config) of
                 Inl e \<Rightarrow> (Unhandled e, app1)
               | Inr False \<Rightarrow>
                   (HTTPException 401 ''Invalid webhook signature'',
                    record_error now ''webhook_auth_failure'' ''Invalid webhook signature'' tr
                      (count_failed app1))
               | Inr True \<Rightarrow> webhook_admit tr now request app1)
         else webhook_admit tr now request app1)"

text \<open>\<^verbatim>\<open>receive_gcp_webhook\<close> from \<^verbatim>\<open>request.json()\<close> on.\<close>

definition gcp_admit :: "string \<Rightarrow> real \<Rightarrow> Request \<Rightarrow> App \<Rightarrow> HttpResult \<times> App" where
  "gcp_admit tr now request app =
     (case json request of
        None \<Rightarrow> (Unhandled JSONDecodeError, app)
      | Some payload \<Rightarrow>
          (if p_incident_state payload \<noteq> ''open'' then
             (Response [(''status'', ''ignored''), (''state'', p_incident_state payload)],
              count_ignored app)
           else
             (case p_alert payload of
                None \<Rightarrow>
                  (HTTPException 400 ''Invalid payload'',
                   record_error now ''gcp_payload_parse_error''
                     ''Failed to parse GCP Cloud Monitoring webhook payload'' tr
                     (count_failed app))
              | Some a \<Rightarrow> submit_to_intake a tr now app)))"

definition receive_gcp_webhook ::
  "Config \<Rightarrow> string \<Rightarrow> real \<Rightarrow> Request \<Rightarrow> App \<Rightarrow> HttpResult \<times> App" where
  "receive_gcp_webhook config tr now request app =
     (let app1 = count_received app
      in if draining (state (intake app1)) then
           (HTTPException 503 ''Service is draining'', app1)
         else
           (let auth_token = (case query_auth_token request of None \<Rightarrow> [] | Some v \<Rightarrow> v)
            in if ops_auth_token config \<noteq> [] \<and> auth_token \<noteq> [] then
                 (case compare_digest auth_token (ops_auth_token config) of
                    Inl e \<Rightarrow> (Unhandled e, app1)
                  | Inr False \<Rightarrow> (HTTPException 401 ''Invalid auth token'', count_failed app1)
                  | Inr True \<Rightarrow> gcp_admit tr now request app1)
               else gcp_admit tr now request app1))"

text \<open>
  Example requests. The digest function of the examples is a stand-in that returns the
  same 32 bytes for every key and body: what the handlers do with a header does not
  depend on which digest it is compared with.
\<close>

definition ex_digest :: "string \<Rightarrow> string \<Rightarrow> string" where
  "ex_digest secret bytes = replicate 32 (char_of (171 :: nat))"

definition ex_payload :: Payload where
  "ex_payload = \<lparr>p_event_type = ''incident.triggered'', p_incident_state = ''open'',
                  p_alert = Some ex_inc1\<rparr>"

definition ex_request :: "string option \<Rightarrow> string option \<Rightarrow> Request" where
  "ex_request signature token =
     \<lparr>body = ''{}'', x_pagerduty_signature = signature, query_auth_token = token,
      json = Some ex_payload\<rparr>"

section \<open>Signature verification\<close>

lemma last_deque_append: "0 < n \<Longrightarrow> last (deque_append n xs x) = x"
  by (simp add: deque_append_def Let_def)

lemma hexdigit_set: "n < 16 \<Longrightarrow> hexdigit n \<in> set ''0123456789abcdef''"
  unfolding hexdigit_def by (rule nth_mem) simp

lemma hexdigit_ascii: "n < 16 \<Longrightarrow> (of_char (hexdigit n) :: nat) < 128"
  using hexdigit_set [of n] by auto

lemma hexdigit_not_v: "n < 16 \<Longrightarrow> hexdigit n \<noteq> CHR ''v''"
  using hexdigit_set [of n] by auto

lemma of_char_div_16: "(of_char c :: nat) div 16 < 16"
  by (rule less_mult_imp_div_less) simp

lemma is_ascii_hexdigest: "is_ascii (hexdigest digest)"
  by (induction digest)
     (simp_all add: is_ascii_def hexdigest_def hexdigit_ascii of_char_div_16)

lemma hexdigest_no_prefix:
  "digest \<noteq> [] \<Longrightarrow> take (length ''v1='') (hexdigest digest) \<noteq> ''v1=''"
  by (cases digest) (simp_all add: hexdigest_def hexdigit_not_v of_char_div_16)

lemma hexdigest_nonempty: "digest \<noteq> [] \<Longrightarrow> hexdigest digest \<noteq> []"
  by (cases digest) (simp_all add: hexdigest_def)

lemma is_ascii_drop: "is_ascii s \<Longrightarrow> is_ascii (drop n s)"
  unfolding is_ascii_def list_all_iff by (auto dest: in_set_dropD)

lemma removeprefix_eq_iff:
  assumes "take (length p) h \<noteq> p"
  shows "h = removeprefix p s \<longleftrightarrow> s = p @ h \<or> s = h"
proof (cases "take (length p) s = p")
  case True
  then have s: "s = p @ drop (length p) s"
    by (metis append_take_drop_id)
  from True assms have "s \<noteq> h" by auto
  with True s show ?thesis
    by (auto simp: removeprefix_def)
next
  case False
  then have "s \<noteq> p @ h" by auto
  with False show ?thesis
    by (auto simp: removeprefix_def)
qed

lemma verify_signature_ascii:
  assumes "hm secret bytes \<noteq> []" and "is_ascii signature"
  shows "verify_signature hm bytes signature secret =
           Inr (signature = ''v1='' @ hexdigest (hm secret bytes)
                \<or> signature = hexdigest (hm secret bytes))"
proof (cases "signature = []")
  case True
  with hexdigest_nonempty [OF assms(1)] show ?thesis
    by (auto simp: verify_signature_def)
next
  case False
  have "is_ascii (removeprefix ''v1='' signature)"
    using assms(2) by (simp add: removeprefix_def is_ascii_drop)
  moreover have "take (length ''v1='') (hexdigest (hm secret bytes)) \<noteq> ''v1=''"
    using assms(1) by (rule hexdigest_no_prefix)
  ultimately show ?thesis
    using False removeprefix_eq_iff [of "''v1=''" "hexdigest (hm secret bytes)" signature]
    by (simp add: verify_signature_def compare_digest_def is_ascii_hexdigest Let_def)
qed

text \<open>
  Claim C8, as amended. With a digest of 32 bytes and a signature header of ASCII
  characters (an absent header counts as the empty string): verification accepts the
  header if and only if it is \<open>v1=\<close> followed by the lowercase hex digest, or the bare
  hex digest without the prefix. When a secret is configured and the service is not
  draining, an accepted request goes on to payload handling, and every other such header
  yields the 401 response \<open>Invalid webhook signature\<close>, with \<open>webhooks_failed\<close> and its
  instrument incremented and a \<open>webhook_auth_failure\<close> error recorded last.
\<close>

theorem webhook_signature_check:
  assumes "length (hm (pagerduty_webhook_secret config) (body request)) = 32"
    and "signature = (case x_pagerduty_signature request of None \<Rightarrow> [] | Some v \<Rightarrow> v)"
    and "is_ascii signature"
  shows "verify_signature hm (body request) signature (pagerduty_webhook_secret config)
           = Inr (signature = ''v1='' @ hexdigest (hm (pagerduty_webhook_secret config)
                                                    (body request))
                  \<or> signature = hexdigest (hm (pagerduty_webhook_secret config)
                                             (body request)))
         \<and> (pagerduty_webhook_secret config \<noteq> [] \<and> \<not> draining (state (intake app)) \<longrightarrow>
              (if signature = ''v1='' @ hexdigest (hm (pagerduty_webhook_secret config)
                                                    (body request))
                  \<or> signature = hexdigest (hm (pagerduty_webhook_secret config)
                                             (body request))
               then receive_webhook config hm tr now request app =
                      webhook_admit tr now request (count_received app)
               else fst (receive_webhook config hm tr now request app) =
                      HTTPException 401 ''Invalid webhook signature''
                    \<and> webhooks_failed
                        (state (intake (snd (receive_webhook config hm tr now request app))))
                        = webhooks_failed (state (intake app)) + 1
                    \<and> webhooks_failed_counter
                        (telemetry (intake (snd (receive_webhook config hm tr now request app))))
                        = webhooks_failed_counter (telemetry (intake app)) + 1
                    \<and> last (recent_errors
                        (state (intake (snd (receive_webhook config hm tr now request app)))))
                        = \<lparr>err_timestamp = now, err_type = ''webhook_auth_failure'',
                           err_message = ''Invalid webhook signature'',
                           err_incident_id = None, err_trace_id = Some tr\<rparr>))"
proof -
  from assms(1) have ne: "hm (pagerduty_webhook_secret config) (body request) \<noteq> []"
    by auto
  note v = verify_signature_ascii [where hm = hm and secret = "pagerduty_webhook_secret config" and bytes = "body request", OF ne assms(3)]
  have d: "draining (state (intake (count_received app))) = draining (state (intake app))"
    by (simp add: count_received_def upd_state_def upd_telemetry_def)
  show ?thesis
    using v assms(2) d
    by (auto simp: receive_webhook_def Let_def)
       (simp_all add: record_error_def count_failed_def count_received_def upd_state_def
          upd_telemetry_def last_deque_append)
qed

lemma length_hexdigest: "length (hexdigest digest) = 2 * length digest"
  by (induction digest) (simp_all add: hexdigest_def)

lemma is_ascii_append: "is_ascii (a @ b) \<longleftrightarrow> is_ascii a \<and> is_ascii b"
  by (simp add: is_ascii_def)

lemma ex_digest_length: "length (ex_digest secret bytes) = 32"
  by (simp add: ex_digest_def)

lemma ex_app_not_draining: "\<not> draining (state (intake ex_app))"
  by (simp add: ex_app_def ex_defs intake_defs)

lemma ex_app_admit:
  "fst (webhook_admit ''trace-1'' 5 (ex_request signature token) (count_received ex_app)) =
     Response [(''status'', ''deduplicated''), (''incident_id'', ''inc-1''),
               (''trace_id'', ''trace-1'')]"
  by (simp add: webhook_admit_def ex_request_def ex_payload_def submit_to_intake_def
      count_processed_def count_received_def upd_state_def upd_telemetry_def ex_app_def
      ex_defs intake_defs split: prod.splits)

text \<open>
  The theorem at a request with the header \<open>v1=invalid\<close> and at a request with the valid
  prefixed signature, both for the incident \<open>inc-1\<close> that is already running.
\<close>

theorem webhook_signature_check_witness:
  "length (ex_digest (pagerduty_webhook_secret ex_config)
             (body (ex_request (Some ''v1=invalid'') None))) = 32
   \<and> is_ascii ''v1=invalid''
   \<and> pagerduty_webhook_secret ex_config \<noteq> [] \<and> \<not> draining (state (intake ex_app))
   \<and> verify_signature ex_digest ''{}'' ''v1=invalid'' ''s3cret'' = Inr False
   \<and> fst (receive_webhook ex_config ex_digest ''trace-1'' 5
             (ex_request (Some ''v1=invalid'') None) ex_app)
       = HTTPException 401 ''Invalid webhook signature''
   \<and> webhooks_failed (state (intake (snd (receive_webhook ex_config ex_digest ''trace-1'' 5
             (ex_request (Some ''v1=invalid'') None) ex_app)))) = 1
   \<and> verify_signature ex_digest ''{}'' (''v1='' @ hexdigest (ex_digest ''s3cret'' ''{}''))
        ''s3cret'' = Inr True
   \<and> fst (receive_webhook ex_config ex_digest ''trace-1'' 5
             (ex_request (Some (''v1='' @ hexdigest (ex_digest ''s3cret'' ''{}''))) None) ex_app)
       = Response [(''status'', ''deduplicated''), (''incident_id'', ''inc-1''),
                   (''trace_id'', ''trace-1'')]"
proof -
  let ?hex = "hexdigest (ex_digest ''s3cret'' ''{}'')"
  have s: "pagerduty_webhook_secret ex_config = ''s3cret''"
    and b: "body (ex_request sg tk) = ''{}''"
    and h: "x_pagerduty_signature (ex_request sg tk) = sg" for sg tk
    by (simp_all add: ex_config_def ex_request_def)
  have f0: "webhooks_failed (state (intake ex_app)) = 0"
    by (simp add: ex_app_def ex_defs intake_defs)
  have l: "length (ex_digest (pagerduty_webhook_secret ex_config) (body (ex_request sg tk))) = 32"
    for sg tk
    by (rule ex_digest_length)
  have a1: "is_ascii ''v1=invalid''"
    by (simp add: is_ascii_def)
  have a2: "is_ascii (''v1='' @ ?hex)"
  proof -
    have "is_ascii ''v1=''" by (simp add: is_ascii_def)
    then show ?thesis by (simp only: is_ascii_append is_ascii_hexdigest simp_thms)
  qed
  have n1: "''v1=invalid'' \<noteq> ''v1='' @ ?hex" "''v1=invalid'' \<noteq> ?hex"
    using length_hexdigest [of "ex_digest ''s3cret'' ''{}''"]
    by (auto simp: ex_digest_length dest: arg_cong [where f = length])
  have e: "sg = (case x_pagerduty_signature (ex_request (Some sg) None) of
                   None \<Rightarrow> [] | Some v \<Rightarrow> v)" for sg
    by (simp add: h)
  note bad = webhook_signature_check [where hm = ex_digest and config = ex_config
      and request = "ex_request (Some ''v1=invalid'') None" and signature = "''v1=invalid''"
      and app = ex_app and tr = "''trace-1''" and now = 5, OF l e a1, unfolded s b]
  note good = webhook_signature_check [where hm = ex_digest and config = ex_config
      and request = "ex_request (Some (''v1='' @ ?hex)) None" and signature = "''v1='' @ ?hex"
      and app = ex_app and tr = "''trace-1''" and now = 5, OF l e a2, unfolded s b]
  have c: "pagerduty_webhook_secret ex_config \<noteq> [] \<and> \<not> draining (state (intake ex_app))"
    using ex_app_not_draining by (simp add: s)
  have 1: "verify_signature ex_digest ''{}'' ''v1=invalid'' ''s3cret'' = Inr False"
    using bad [THEN conjunct1] n1 by simp
  have 2: "fst (receive_webhook ex_config ex_digest ''trace-1'' 5
             (ex_request (Some ''v1=invalid'') None) ex_app)
       = HTTPException 401 ''Invalid webhook signature''"
    and 3: "webhooks_failed (state (intake (snd (receive_webhook ex_config ex_digest ''trace-1'' 5
             (ex_request (Some ''v1=invalid'') None) ex_app)))) = 1"
    using bad [THEN conjunct2, THEN mp, OF c [unfolded s]] n1 f0 by simp_all
  have 4: "verify_signature ex_digest ''{}'' (''v1='' @ ?hex) ''s3cret'' = Inr True"
    using good [THEN conjunct1] by simp
  have 5: "fst (receive_webhook ex_config ex_digest ''trace-1'' 5
             (ex_request (Some (''v1='' @ ?hex)) None) ex_app)
       = Response [(''status'', ''deduplicated''), (''incident_id'', ''inc-1''),
                   (''trace_id'', ''trace-1'')]"
    using good [THEN conjunct2, THEN mp, OF c [unfolded s]] ex_app_admit by simp
  from l [of "Some ''v1=invalid''" None] a1 c 1 2 3 4 5 show ?thesis
    by (intro conjI) simp_all
qed

text \<open>
  The claim as stated fails for the bare hex digest, sent without the \<open>v1=\<close> prefix: the
  prefix is removed only when present, so this header is accepted and the request is
  admitted, although it is not \<open>v1=\<close> followed by the digest.
\<close>

theorem webhook_signature_check_counterexample:
  "hexdigest (ex_digest ''s3cret'' ''{}'') \<noteq> ''v1='' @ hexdigest (ex_digest ''s3cret'' ''{}'')
   \<and> pagerduty_webhook_secret ex_config = ''s3cret''
   \<and> verify_signature ex_digest ''{}'' (hexdigest (ex_digest ''s3cret'' ''{}'')) ''s3cret''
       = Inr True
   \<and> fst (receive_webhook ex_config ex_digest ''trace-1'' 5
             (ex_request (Some (hexdigest (ex_digest ''s3cret'' ''{}''))) None) ex_app)
       = Response [(''status'', ''deduplicated''), (''incident_id'', ''inc-1''),
                   (''trace_id'', ''trace-1'')]"
proof -
  let ?hex = "hexdigest (ex_digest ''s3cret'' ''{}'')"
  have ne: "ex_digest ''s3cret'' ''{}'' \<noteq> []"
    using ex_digest_length [of "''s3cret''" "''{}''"] by auto
  have v: "verify_signature ex_digest ''{}'' ?hex ''s3cret'' = Inr True"
    using verify_signature_ascii [where hm = ex_digest, OF ne is_ascii_hexdigest] by simp
  have d: "\<not> draining (state (intake (count_received ex_app)))"
    using ex_app_not_draining by (simp add: count_received_def upd_state_def upd_telemetry_def)
  have r: "receive_webhook ex_config ex_digest ''trace-1'' 5 (ex_request (Some ?hex) None) ex_app
             = webhook_admit ''trace-1'' 5 (ex_request (Some ?hex) None) (count_received ex_app)"
    using v d by (simp add: receive_webhook_def Let_def ex_config_def ex_request_def)
  show ?thesis
    by (simp add: v r ex_app_admit) (simp add: ex_config_def)
qed

section \<open>The auth token of the cloud-monitoring webhook\<close>

lemma gcp_admit_not_401: "fst (gcp_admit tr now request app) \<noteq> HTTPException 401 msg"
  by (simp add: gcp_admit_def submit_to_intake_def Let_def split: option.splits prod.splits)

text \<open>
  Claim C10, as amended. When the service is not draining and both the configured token
  and the \<^verbatim>\<open>auth_token\<close> parameter are ASCII strings (an absent parameter counts as the
  empty string): the endpoint returns 401 \<open>Invalid auth token\<close> if and only if a token is
  configured, the parameter is non-empty and the two differ; the rejected request is
  counted in \<open>webhooks_failed\<close>. In every other such case, in particular when the
  parameter is absent or empty, the request goes on to payload handling and admission.
\<close>

theorem gcp_auth_token_check:
  assumes "\<not> draining (state (intake app))"
    and "auth_token = (case query_auth_token request of None \<Rightarrow> [] | Some v \<Rightarrow> v)"
    and "is_ascii auth_token" and "is_ascii (ops_auth_token config)"
  shows "(fst (receive_gcp_webhook config tr now request app) =
            HTTPException 401 ''Invalid auth token''
          \<longleftrightarrow> ops_auth_token config \<noteq> [] \<and> auth_token \<noteq> []
              \<and> auth_token \<noteq> ops_auth_token config)
         \<and> (ops_auth_token config \<noteq> [] \<and> auth_token \<noteq> []
              \<and> auth_token \<noteq> ops_auth_token config \<longrightarrow>
              snd (receive_gcp_webhook config tr now request app) =
                count_failed (count_received app))
         \<and> (\<not> (ops_auth_token config \<noteq> [] \<and> auth_token \<noteq> []
                  \<and> auth_token \<noteq> ops_auth_token config) \<longrightarrow>
              receive_gcp_webhook config tr now request app =
                gcp_admit tr now request (count_received app))"
proof -
  have d: "\<not> draining (state (intake (count_received app)))"
    using assms(1) by (simp add: count_received_def upd_state_def upd_telemetry_def)
  have c: "compare_digest auth_token (ops_auth_token config) =
             Inr (auth_token = ops_auth_token config)"
    using assms(3,4) by (simp add: compare_digest_def)
  show ?thesis
    using d c assms(2) gcp_admit_not_401 [of tr now request "count_received app"]
    by (auto simp: receive_gcp_webhook_def Let_def)
qed

text \<open>
  The theorem at three requests against the example application, whose configured
  token is \<open>ops-token\<close>: a wrong token, no token, and an empty token.
\<close>

theorem gcp_auth_token_check_witness:
  "\<not> draining (state (intake ex_app)) \<and> is_ascii ''wrong'' \<and> is_ascii (ops_auth_token ex_config)
   \<and> ops_auth_token ex_config \<noteq> []
   \<and> fst (receive_gcp_webhook ex_config ''trace-1'' 5 (ex_request None (Some ''wrong'')) ex_app)
       = HTTPException 401 ''Invalid auth token''
   \<and> receive_gcp_webhook ex_config ''trace-1'' 5 (ex_request None None) ex_app
       = gcp_admit ''trace-1'' 5 (ex_request None None) (count_received ex_app)
   \<and> receive_gcp_webhook ex_config ''trace-1'' 5 (ex_request None (Some [])) ex_app
       = gcp_admit ''trace-1'' 5 (ex_request None (Some [])) (count_received ex_app)"
proof -
  have t: "ops_auth_token ex_config = ''ops-token''"
    by (simp add: ex_config_def)
  have a: "is_ascii ''wrong''" "is_ascii (ops_auth_token ex_config)" "is_ascii []"
    by (simp_all add: is_ascii_def t)
  have q: "tk = (case query_auth_token (ex_request None (Some tk)) of
                   None \<Rightarrow> [] | Some v \<Rightarrow> v)"
    "[] = (case query_auth_token (ex_request None None) of None \<Rightarrow> [] | Some v \<Rightarrow> v)" for tk
    by (simp_all add: ex_request_def)
  note w = gcp_auth_token_check [where config = ex_config and tr = "''trace-1''" and now = 5,
      OF ex_app_not_draining q(1) a(1) a(2), THEN conjunct1]
  note n = gcp_auth_token_check [where config = ex_config and tr = "''trace-1''" and now = 5,
      OF ex_app_not_draining q(2) a(3) a(2), THEN conjunct2, THEN conjunct2]
  note e = gcp_auth_token_check [where config = ex_config and tr = "''trace-1''" and now = 5,
      OF ex_app_not_draining q(1) a(3) a(2), THEN conjunct2, THEN conjunct2]
  from w n e a ex_app_not_draining show ?thesis
    by (simp add: t)
qed

text \<open>
  The claim as stated fails while the service drains: a token is configured, the
  parameter is non-empty and differs from it, yet the answer is 503, not 401.
\<close>

theorem gcp_auth_token_check_counterexample:
  "ops_auth_token ex_config \<noteq> [] \<and> ''wrong'' \<noteq> [] \<and> ''wrong'' \<noteq> ops_auth_token ex_config
   \<and> query_auth_token (ex_request None (Some ''wrong'')) = Some ''wrong''
   \<and> fst (receive_gcp_webhook ex_config ''trace-1'' 5 (ex_request None (Some ''wrong''))
            (upd_state (\<lambda>st. st\<lparr>draining := True\<rparr>) ex_app))
       = HTTPException 503 ''Service is draining''"
  by (simp add: receive_gcp_webhook_def count_received_def upd_state_def upd_telemetry_def
      ex_config_def ex_request_def Let_def)


section \<open>The report-writing tool (tools.py)\<close>

text \<open>\<^verbatim>\<open>str.split(sep)\<close> for a one-character separator.\<close>

fun split_sep :: "char \<Rightarrow> string \<Rightarrow> string list" where
  "split_sep sep [] = [[]]"
| "split_sep sep (c # cs) =
     (if c = sep then [] # split_sep sep cs
      else (case split_sep sep cs of
              [] \<Rightarrow> [[c]]
            | part # parts \<Rightarrow> (c # part) # parts))"

text \<open>
  \<^verbatim>\<open>Path(filename).name\<close> on a POSIX system: the path is split at \<open>/\<close>, empty and \<open>.\<close>
  components are dropped (a leading root is not a component), and the name is the last
  component left, or the empty string when none is left.
\<close>

definition path_name :: "string \<Rightarrow> string" where
  "path_name filename =
     (case filter (\<lambda>x. x \<noteq> [] \<and> x \<noteq> ''.'') (split_sep CHR ''/'' filename) of
        [] \<Rightarrow> []
      | parts \<Rightarrow> last parts)"

text \<open>
  The tool input (absent keys read as the empty string), the file operations the handler
  issues, and whether the file system carries them out (\<open>False\<close>: the call raises).
\<close>

record ReportInput =
  in_filename :: string
  in_content :: string

datatype FsOp =
    Mkdir string
  | WriteText string string string

record FsEnv =
  mkdir_ok :: "string \<Rightarrow> bool"
  write_ok :: "string \<Rightarrow> string \<Rightarrow> bool"

datatype ToolResult =
    JsonError string
  | JsonWritten string string
  | Raised PyExc

text \<open>
  \<^verbatim>\<open>ToolExecutor._write_incident_report\<close>: the result with the file operations issued,
  in order. \<open>JsonWritten dir name\<close> is the envelope with status \<open>written\<close> and the path
  \<open>dir/name\<close>; \<open>WriteText dir name text\<close> writes \<open>text\<close> to that path.
\<close>

definition write_incident_report ::
  "string \<Rightarrow> FsEnv \<Rightarrow> ReportInput \<Rightarrow> ToolResult \<times> FsOp list" where
  "write_incident_report dir fs input =
     (let filename = in_filename input; content = in_content input
      in if filename = [] \<or> content = [] then
           (JsonError ''filename and content are required'', [])
         else
           (let safe_name = path_name filename
            in if safe_name \<noteq> filename then
                 (JsonError (''Invalid filename (path traversal rejected): '' @ filename), [])
               else if \<not> mkdir_ok fs dir then (Raised OSError, [Mkdir dir])
               else if \<not> write_ok fs dir safe_name then
                 (Raised OSError, [Mkdir dir, WriteText dir safe_name content])
               else (JsonWritten dir safe_name, [Mkdir dir, WriteText dir safe_name content])))"

section \<open>Path traversal is rejected\<close>

lemma split_sep_nonempty: "split_sep sep s \<noteq> []"
  by (induction s) (auto split: list.splits)

lemma split_sep_no_sep: "part \<in> set (split_sep sep s) \<Longrightarrow> sep \<notin> set part"
proof (induction s arbitrary: part)
  case Nil
  then show ?case by simp
next
  case (Cons c cs)
  obtain p ps where ps: "split_sep sep cs = p # ps"
    using split_sep_nonempty [of sep cs] by (cases "split_sep sep cs") auto
  show ?case
  proof (cases "c = sep")
    case True
    with Cons.prems have "part = [] \<or> part \<in> set (split_sep sep cs)"
      by simp
    with Cons.IH show ?thesis by auto
  next
    case False
    with Cons.prems ps have "part = c # p \<or> part \<in> set ps"
      by simp
    moreover have "sep \<notin> set p" and "\<And>q. q \<in> set ps \<Longrightarrow> sep \<notin> set q"
      using Cons.IH ps by simp_all
    ultimately show ?thesis using False by auto
  qed
qed

lemma split_sep_plain: "sep \<notin> set s \<Longrightarrow> split_sep sep s = [s]"
  by (induction s) auto

lemma path_name_no_sep: "CHR ''/'' \<notin> set (path_name filename)"
proof (cases "filter (\<lambda>x. x \<noteq> [] \<and> x \<noteq> ''.'') (split_sep CHR ''/'' filename)")
  case Nil
  then show ?thesis by (simp add: path_name_def)
next
  case (Cons p ps)
  then have "path_name filename
               \<in> set (filter (\<lambda>x. x \<noteq> [] \<and> x \<noteq> ''.'') (split_sep CHR ''/'' filename))"
    using last_in_set [of "p # ps"] by (simp add: path_name_def del: last.simps)
  then have "path_name filename \<in> set (split_sep CHR ''/'' filename)"
    by simp
  then show ?thesis by (rule split_sep_no_sep)
qed

lemma path_name_separator: "CHR ''/'' \<in> set filename \<Longrightarrow> path_name filename \<noteq> filename"
  using path_name_no_sep [of filename] by auto

lemma path_name_plain:
  "CHR ''/'' \<notin> set filename \<Longrightarrow>
   path_name filename = (if filename = ''.'' then [] else filename)"
  by (simp add: path_name_def split_sep_plain)

text \<open>
  Claim C9, as amended. A filename that contains a directory separator (so any relative
  path with a \<open>../\<close> component, any path into a subdirectory and any absolute path) is
  not equal to its own basename; and for every input whose filename is not equal to its
  basename the handler returns an error envelope and issues no file operation at all.
  When the filename is non-empty and equals its basename and the content is non-empty,
  the handler creates the incidents directory and then writes the content to exactly
  \<open>incidents_dir/filename\<close>, touching no other path, and returns the \<open>written\<close>
  envelope with that path when both operations succeed.
\<close>

theorem report_filename_is_basename:
  "(CHR ''/'' \<in> set (in_filename input) \<longrightarrow> path_name (in_filename input) \<noteq> in_filename input)
   \<and> (path_name (in_filename input) \<noteq> in_filename input \<longrightarrow>
        (\<exists>msg. write_incident_report dir fs input = (JsonError msg, [])))
   \<and> (in_filename input \<noteq> [] \<and> path_name (in_filename input) = in_filename input
        \<and> in_content input \<noteq> [] \<longrightarrow>
        snd (write_incident_report dir fs input) =
          Mkdir dir # (if mkdir_ok fs dir
                       then [WriteText dir (in_filename input) (in_content input)] else [])
        \<and> (mkdir_ok fs dir \<and> write_ok fs dir (in_filename input) \<longrightarrow>
             fst (write_incident_report dir fs input) = JsonWritten dir (in_filename input)))"
  using path_name_separator [of "in_filename input"]
  by (auto simp: write_incident_report_def Let_def)

text \<open>
  The theorem at the traversal attempt of the test suite, and at a plain report name on
  a file system that carries out both operations.
\<close>

definition ex_fs :: FsEnv where
  "ex_fs = \<lparr>mkdir_ok = (\<lambda>dir. True), write_ok = (\<lambda>dir name. True)\<rparr>"

theorem report_filename_is_basename_witness:
  "CHR ''/'' \<in> set ''../../../etc/passwd''
   \<and> path_name ''../../../etc/passwd'' = ''passwd''
   \<and> write_incident_report ''/app/incidents'' ex_fs
        \<lparr>in_filename = ''../../../etc/passwd'', in_content = ''malicious''\<rparr>
       = (JsonError ''Invalid filename (path traversal rejected): ../../../etc/passwd'', [])
   \<and> path_name ''report.md'' = ''report.md''
   \<and> write_incident_report ''/app/incidents'' ex_fs
        \<lparr>in_filename = ''report.md'', in_content = ''# Incident''\<rparr>
       = (JsonWritten ''/app/incidents'' ''report.md'',
          [Mkdir ''/app/incidents'', WriteText ''/app/incidents'' ''report.md'' ''# Incident''])"
proof -
  let ?bad = "\<lparr>in_filename = ''../../../etc/passwd'', in_content = ''malicious''\<rparr>"
  let ?good = "\<lparr>in_filename = ''report.md'', in_content = ''# Incident''\<rparr>"
  have s: "CHR ''/'' \<in> set (in_filename ?bad)"
    by simp
  have n: "path_name ''../../../etc/passwd'' = ''passwd''"
    "path_name ''report.md'' = ''report.md''"
    by (simp_all add: path_name_def)
  have g: "in_filename ?good \<noteq> [] \<and> path_name (in_filename ?good) = in_filename ?good
        \<and> in_content ?good \<noteq> []"
    by (simp add: n)
  have m: "mkdir_ok ex_fs ''/app/incidents'' \<and> write_ok ex_fs ''/app/incidents'' (in_filename ?good)"
    by (simp add: ex_fs_def)
  note T = report_filename_is_basename [where dir = "''/app/incidents''" and fs = ex_fs]
  from T [where input = ?bad, THEN conjunct1, THEN mp, OF s]
  have "path_name (in_filename ?bad) \<noteq> in_filename ?bad" .
  from T [where input = ?bad, THEN conjunct2, THEN conjunct1, THEN mp, OF this]
  obtain msg where b: "write_incident_report ''/app/incidents'' ex_fs ?bad = (JsonError msg, [])"
    by blast
  have "fst (write_incident_report ''/app/incidents'' ex_fs ?bad) =
          JsonError ''Invalid filename (path traversal rejected): ../../../etc/passwd''"
    by (simp add: write_incident_report_def n Let_def)
  with b have 1: "write_incident_report ''/app/incidents'' ex_fs ?bad
       = (JsonError ''Invalid filename (path traversal rejected): ../../../etc/passwd'', [])"
    by simp
  note G = T [where input = ?good, THEN conjunct2, THEN conjunct2, THEN mp, OF g]
  from G [THEN conjunct1] G [THEN conjunct2, THEN mp, OF m] m
  have 2: "write_incident_report ''/app/incidents'' ex_fs ?good
       = (JsonWritten ''/app/incidents'' ''report.md'',
          [Mkdir ''/app/incidents'', WriteText ''/app/incidents'' ''report.md'' ''# Incident''])"
    by (simp add: prod_eq_iff)
  from s n 1 2 show ?thesis by simp
qed

text \<open>
  The claim as stated fails for the empty filename: it equals its own basename (the
  name of the empty path is the empty string) and the content is non-empty, yet nothing
  is written and the handler returns the \<open>required\<close> error envelope.
\<close>

theorem report_filename_is_basename_counterexample:
  "path_name [] = []
   \<and> write_incident_report ''/app/incidents'' ex_fs \<lparr>in_filename = [], in_content = ''text''\<rparr>
       = (JsonError ''filename and content are required'', [])"
  by (simp add: path_name_def write_incident_report_def)

end
